theory Spec2Isabelle
  imports Complex_Main
begin

section \<open>JavaScript numbers\<close>

text \<open>
  The program is TypeScript; every \<^verbatim>\<open>number\<close> is an IEEE double. The model keeps the
  three special values that decide control flow in the code (\<^verbatim>\<open>NaN\<close> and the two
  infinities) and takes every finite double as a real: rounding, overflow to infinity and the
  sign of zero are not modelled (a division by zero treats the zero as \<^verbatim>\<open>+0\<close>).
\<close>

datatype jsnum = Num real | PInf | NInf | NaN

fun js_neg :: "jsnum \<Rightarrow> jsnum" where
  "js_neg (Num a) = Num (- a)"
| "js_neg PInf = NInf"
| "js_neg NInf = PInf"
| "js_neg NaN = NaN"

fun js_add :: "jsnum \<Rightarrow> jsnum \<Rightarrow> jsnum" where
  "js_add NaN _ = NaN"
| "js_add _ NaN = NaN"
| "js_add (Num a) (Num b) = Num (a + b)"
| "js_add PInf NInf = NaN"
| "js_add NInf PInf = NaN"
| "js_add PInf _ = PInf"
| "js_add _ PInf = PInf"
| "js_add NInf _ = NInf"
| "js_add _ NInf = NInf"

definition js_sub :: "jsnum \<Rightarrow> jsnum \<Rightarrow> jsnum" where
  "js_sub a b = js_add a (js_neg b)"

text \<open>The sign of a value that is not \<^verbatim>\<open>NaN\<close>: \<open>-1\<close>, \<open>0\<close> or \<open>1\<close>.\<close>

fun js_sign :: "jsnum \<Rightarrow> int" where
  "js_sign (Num a) = (if a < 0 then - 1 else if a = 0 then 0 else 1)"
| "js_sign PInf = 1"
| "js_sign NInf = - 1"
| "js_sign NaN = 0"

definition inf_of_sign :: "int \<Rightarrow> jsnum" where
  "inf_of_sign s = (if s = 0 then NaN else if s < 0 then NInf else PInf)"

fun js_mul :: "jsnum \<Rightarrow> jsnum \<Rightarrow> jsnum" where
  "js_mul NaN _ = NaN"
| "js_mul _ NaN = NaN"
| "js_mul (Num a) (Num b) = Num (a * b)"
| "js_mul x y = inf_of_sign (js_sign x * js_sign y)"

fun js_div :: "jsnum \<Rightarrow> jsnum \<Rightarrow> jsnum" where
  "js_div NaN _ = NaN"
| "js_div _ NaN = NaN"
| "js_div (Num a) (Num b) = (if b = 0 then inf_of_sign (js_sign (Num a)) else Num (a / b))"
| "js_div (Num a) _ = Num 0"
| "js_div x (Num b) = inf_of_sign (js_sign x * (if b < 0 then - 1 else 1))"
| "js_div _ _ = NaN"

fun js_lt :: "jsnum \<Rightarrow> jsnum \<Rightarrow> bool" where
  "js_lt NaN _ = False"
| "js_lt _ NaN = False"
| "js_lt (Num a) (Num b) = (a < b)"
| "js_lt _ NInf = False"
| "js_lt PInf _ = False"
| "js_lt _ _ = True"

fun js_le :: "jsnum \<Rightarrow> jsnum \<Rightarrow> bool" where
  "js_le NaN _ = False"
| "js_le _ NaN = False"
| "js_le (Num a) (Num b) = (a \<le> b)"
| "js_le NInf _ = True"
| "js_le _ PInf = True"
| "js_le _ _ = False"

definition js_gt :: "jsnum \<Rightarrow> jsnum \<Rightarrow> bool" where
  "js_gt a b = js_lt b a"

definition js_ge :: "jsnum \<Rightarrow> jsnum \<Rightarrow> bool" where
  "js_ge a b = js_le b a"

text \<open>\<^verbatim>\<open>Math.max\<close> and \<^verbatim>\<open>Math.min\<close> of two arguments: \<^verbatim>\<open>NaN\<close> if either is.\<close>

definition js_max :: "jsnum \<Rightarrow> jsnum \<Rightarrow> jsnum" where
  "js_max a b = (if a = NaN \<or> b = NaN then NaN else if js_lt a b then b else a)"

definition js_min :: "jsnum \<Rightarrow> jsnum \<Rightarrow> jsnum" where
  "js_min a b = (if a = NaN \<or> b = NaN then NaN else if js_lt b a then b else a)"

fun js_floor :: "jsnum \<Rightarrow> jsnum" where
  "js_floor (Num a) = Num (of_int \<lfloor>a\<rfloor>)"
| "js_floor x = x"

text \<open>Truthiness of a number (\<^verbatim>\<open>if (x)\<close>, \<^verbatim>\<open>x || y\<close>): false for \<open>0\<close> and \<^verbatim>\<open>NaN\<close>.\<close>

fun js_truthy :: "jsnum \<Rightarrow> bool" where
  "js_truthy (Num a) = (a \<noteq> 0)"
| "js_truthy NaN = False"
| "js_truthy _ = True"

fun js_isFinite :: "jsnum \<Rightarrow> bool" where
  "js_isFinite (Num a) = True"
| "js_isFinite _ = False"

text \<open>\<^verbatim>\<open>x || y\<close> on numbers.\<close>

definition js_or :: "jsnum \<Rightarrow> jsnum \<Rightarrow> jsnum" where
  "js_or a b = (if js_truthy a then a else b)"

text \<open>\<^verbatim>\<open>String.prototype.toUpperCase\<close> on the ASCII letters.\<close>

definition upper_char :: "char \<Rightarrow> char" where
  "upper_char c =
     (let n = (of_char c :: nat) in if 97 \<le> n \<and> n \<le> 122 then char_of (n - 32) else c)"

definition toUpperCase :: "string \<Rightarrow> string" where
  "toUpperCase s = map upper_char s"

section \<open>Trade monitor\<close>

text \<open>
  \<^verbatim>\<open>TradeMonitorService\<close>. An activity of the feed is an \<^verbatim>\<open>ActivityResponse\<close>; its
  \<^verbatim>\<open>timestamp\<close> is declared a number, and the code also accepts a date string, read by
  \<^verbatim>\<open>new Date(s).getTime()\<close>, which the model takes as the parameter \<open>getTime\<close>
  (milliseconds, \<^verbatim>\<open>NaN\<close> for a string that is no date). The fields \<^verbatim>\<open>type\<close> and
  \<^verbatim>\<open>size\<close> are written \<open>atype\<close> and \<open>asize\<close>; the fields of a \<^verbatim>\<open>TradeSignal\<close>
  carry the prefix \<open>sig_\<close>.
\<close>

datatype jstime = JNumber jsnum | JString string

record ActivityResponse =
  atype :: string
  timestamp :: jstime
  conditionId :: string
  asset :: string
  asize :: jsnum
  usdcSize :: jsnum
  price :: jsnum
  side :: string
  outcomeIndex :: jsnum
  transactionHash :: string

datatype OrderOutcome = YES | NO

record TradeSignal =
  sig_trader :: string
  sig_marketId :: string
  sig_outcome :: OrderOutcome
  sig_side :: string
  sig_sizeUsd :: jsnum
  sig_price :: jsnum
  sig_timestamp :: jsnum

text \<open>
  The state of the service: \<^verbatim>\<open>processedHashes\<close> is a JavaScript \<^verbatim>\<open>Set\<close>, which iterates
  in insertion order, so it is a list without repetitions, oldest first; \<^verbatim>\<open>lastFetchTime\<close>
  is a \<^verbatim>\<open>Map\<close>. Two fields record what the service does to its collaborators:
  \<open>invoked\<close> lists the calls of \<^verbatim>\<open>onDetectedTrade\<close> (the activity with the signal built
  from it), \<open>errorLog\<close> the calls of \<^verbatim>\<open>logger.error\<close> (trader and error).
\<close>

datatype error = Failure string

record MonitorState =
  processedHashes :: "string list"
  lastFetchTime :: "string \<rightharpoonup> jsnum"
  invoked :: "(ActivityResponse \<times> TradeSignal) list"
  errorLog :: "(string \<times> error) list"

definition MAX_HASH_CACHE_SIZE :: nat where
  "MAX_HASH_CACHE_SIZE = 10000"

definition CLEANUP_BATCH_SIZE :: nat where
  "CLEANUP_BATCH_SIZE = 5000"

text \<open>\<^verbatim>\<open>Set.add\<close>, \<^verbatim>\<open>Set.delete\<close> on the insertion-ordered list.\<close>

definition set_add :: "string \<Rightarrow> string list \<Rightarrow> string list" where
  "set_add h hs = (if h \<in> set hs then hs else hs @ [h])"

definition set_delete :: "string \<Rightarrow> string list \<Rightarrow> string list" where
  "set_delete h hs = removeAll h hs"

text \<open>
  \<^verbatim>\<open>cleanupHashCache\<close>: \<^verbatim>\<open>Array.from(set).slice(0, CLEANUP_BATCH_SIZE)\<close> are the oldest
  entries, each deleted in turn. (The debug message it may log changes nothing.)
\<close>

definition cleanupHashCache :: "MonitorState \<Rightarrow> MonitorState" where
  "cleanupHashCache st =
     (if length (processedHashes st) > MAX_HASH_CACHE_SIZE
      then let hashesToDelete = take CLEANUP_BATCH_SIZE (processedHashes st)
           in st\<lparr>processedHashes := fold set_delete hashesToDelete (processedHashes st)\<rparr>
      else st)"

text \<open>\<^verbatim>\<open>this.lastFetchTime.get(trader) || 0\<close>.\<close>

definition lastTimeOf :: "MonitorState \<Rightarrow> string \<Rightarrow> jsnum" where
  "lastTimeOf st trader =
     (case lastFetchTime st trader of None \<Rightarrow> Num 0 | Some t \<Rightarrow> js_or t (Num 0))"

definition activityTimeOf :: "(string \<Rightarrow> jsnum) \<Rightarrow> ActivityResponse \<Rightarrow> jsnum" where
  "activityTimeOf getTime activity =
     (case timestamp activity of
        JNumber n \<Rightarrow> n
      | JString s \<Rightarrow> js_floor (js_div (getTime s) (Num 1000)))"

definition buildSignal :: "(string \<Rightarrow> jsnum) \<Rightarrow> string \<Rightarrow> ActivityResponse \<Rightarrow> TradeSignal" where
  "buildSignal getTime trader activity =
     \<lparr>sig_trader = trader,
      sig_marketId = conditionId activity,
      sig_outcome = (if outcomeIndex activity = Num 0 then YES else NO),
      sig_side = toUpperCase (side activity),
      sig_sizeUsd = js_or (usdcSize activity) (js_mul (asize activity) (price activity)),
      sig_price = price activity,
      sig_timestamp = js_mul (activityTimeOf getTime activity) (Num 1000)\<rparr>"

text \<open>
  One pass of the body of the \<^verbatim>\<open>for\<close> loop of \<^verbatim>\<open>fetchTraderActivities\<close>, up to the call
  of the consumer: the four \<^verbatim>\<open>continue\<close> tests, then the hash is recorded, the watermark
  advanced and \<^verbatim>\<open>onDetectedTrade(signal)\<close> called. Nothing in it awaits, so it runs
  without interruption by another task. The result says whether the consumer was called.
\<close>

definition processActivity ::
  "(string \<Rightarrow> jsnum) \<Rightarrow> string \<Rightarrow> jsnum \<Rightarrow> ActivityResponse \<Rightarrow> MonitorState
     \<Rightarrow> TradeSignal option \<times> MonitorState" where
  "processActivity getTime trader cutoffTime activity st =
     (if atype activity \<noteq> ''TRADE'' then (None, st)
      else let activityTime = activityTimeOf getTime activity in
        if js_lt activityTime cutoffTime then (None, st)
        else if transactionHash activity \<in> set (processedHashes st) then (None, st)
        else let lastTime = lastTimeOf st trader in
          if js_le activityTime lastTime then (None, st)
          else let signal = buildSignal getTime trader activity in
            (Some signal,
             st\<lparr>processedHashes := set_add (transactionHash activity) (processedHashes st),
                lastFetchTime := (lastFetchTime st)(trader \<mapsto> js_max (lastTimeOf st trader) activityTime),
                invoked := invoked st @ [(activity, signal)]\<rparr>))"

text \<open>
  The loop over the fetched activities. The consumer is awaited; \<open>onDetectedTrade k signal\<close>
  is what its \<open>k\<close>-th call (counted over the life of the service) does with \<open>signal\<close>:
  \<open>None\<close> when it resolves, \<open>Some e\<close> when it rejects with \<open>e\<close>. A rejection leaves the
  loop for the \<^verbatim>\<open>catch\<close> of \<^verbatim>\<open>fetchTraderActivities\<close>.
\<close>

fun processActivities ::
  "(string \<Rightarrow> jsnum) \<Rightarrow> (nat \<Rightarrow> TradeSignal \<Rightarrow> error option) \<Rightarrow> string \<Rightarrow> jsnum
     \<Rightarrow> ActivityResponse list \<Rightarrow> MonitorState \<Rightarrow> error option \<times> MonitorState" where
  "processActivities getTime onDetectedTrade trader cutoffTime [] st = (None, st)"
| "processActivities getTime onDetectedTrade trader cutoffTime (activity # rest) st =
     (case processActivity getTime trader cutoffTime activity st of
        (None, st') \<Rightarrow> processActivities getTime onDetectedTrade trader cutoffTime rest st'
      | (Some signal, st') \<Rightarrow>
          (case onDetectedTrade (length (invoked st)) signal of
             None \<Rightarrow> processActivities getTime onDetectedTrade trader cutoffTime rest st'
           | Some e \<Rightarrow> (Some e, st')))"

text \<open>
  \<^verbatim>\<open>fetchTraderActivities\<close>: \<open>fetched\<close> is what \<^verbatim>\<open>httpGet\<close> gave (an error or the list),
  \<open>dateNow\<close> is \<^verbatim>\<open>Date.now()\<close> in milliseconds, read after the fetch. Every error ends in
  \<^verbatim>\<open>logger.error\<close>; the function itself never rejects.
\<close>

record RuntimeEnv =
  aggregationWindowSeconds :: real
  fetchIntervalSeconds :: real
  debugEnabled :: bool

definition fetchTraderActivities ::
  "(string \<Rightarrow> jsnum) \<Rightarrow> (nat \<Rightarrow> TradeSignal \<Rightarrow> error option) \<Rightarrow> RuntimeEnv \<Rightarrow> int
     \<Rightarrow> string \<Rightarrow> error + ActivityResponse list \<Rightarrow> MonitorState \<Rightarrow> MonitorState" where
  "fetchTraderActivities getTime onDetectedTrade env dateNow trader fetched st =
     (case fetched of
        Inl e \<Rightarrow> st\<lparr>errorLog := errorLog st @ [(trader, e)]\<rparr>
      | Inr activities \<Rightarrow>
          let now = dateNow div 1000;
              cutoffTime = Num (of_int now - aggregationWindowSeconds env)
          in (case processActivities getTime onDetectedTrade trader cutoffTime activities st of
                (None, st') \<Rightarrow> st'
              | (Some e, st') \<Rightarrow> st'\<lparr>errorLog := errorLog st' @ [(trader, e)]\<rparr>))"

text \<open>
  \<^verbatim>\<open>tick\<close>, in the schedule in which the tasks of the traders do not overlap: one
  \<^verbatim>\<open>fetchTraderActivities\<close> after the other, each with the clock reading and the answer of
  the feed it gets, then \<^verbatim>\<open>cleanupHashCache\<close>. No task rejects, so the \<^verbatim>\<open>catch\<close> of
  \<^verbatim>\<open>tick\<close> has nothing to do.
\<close>

fun fetchAll ::
  "(string \<Rightarrow> jsnum) \<Rightarrow> (nat \<Rightarrow> TradeSignal \<Rightarrow> error option) \<Rightarrow> RuntimeEnv
     \<Rightarrow> (string \<times> int \<times> (error + ActivityResponse list)) list \<Rightarrow> MonitorState \<Rightarrow> MonitorState" where
  "fetchAll getTime onDetectedTrade env [] st = st"
| "fetchAll getTime onDetectedTrade env ((trader, dateNow, fetched) # rest) st =
     fetchAll getTime onDetectedTrade env rest
       (fetchTraderActivities getTime onDetectedTrade env dateNow trader fetched st)"

definition tick ::
  "(string \<Rightarrow> jsnum) \<Rightarrow> (nat \<Rightarrow> TradeSignal \<Rightarrow> error option) \<Rightarrow> RuntimeEnv
     \<Rightarrow> (string \<times> int \<times> (error + ActivityResponse list)) list \<Rightarrow> MonitorState \<Rightarrow> MonitorState" where
  "tick getTime onDetectedTrade env tasks st =
     cleanupHashCache (fetchAll getTime onDetectedTrade env tasks st)"

text \<open>
  In general the tasks of a tick run concurrently, and ticks may overlap; a task
  gives way only at its awaits. Whatever the schedule, the service's state goes through a
  sequence of uninterrupted passes of the loop body, each for some trader and cut-off, and
  of cache clean-ups. A schedule is such a sequence.
\<close>

datatype event = Process string jsnum ActivityResponse | Cleanup

fun apply_event :: "(string \<Rightarrow> jsnum) \<Rightarrow> MonitorState \<Rightarrow> event \<Rightarrow> MonitorState" where
  "apply_event getTime st (Process trader cutoffTime activity) =
     snd (processActivity getTime trader cutoffTime activity st)"
| "apply_event getTime st Cleanup = cleanupHashCache st"

definition run_events :: "(string \<Rightarrow> jsnum) \<Rightarrow> MonitorState \<Rightarrow> event list \<Rightarrow> MonitorState" where
  "run_events getTime st evs = foldl (apply_event getTime) st evs"

text \<open>The calls of the consumer for activities that bear the hash \<open>h\<close>.\<close>

definition calls_for :: "string \<Rightarrow> MonitorState \<Rightarrow> (ActivityResponse \<times> TradeSignal) list" where
  "calls_for h st = filter (\<lambda>c. transactionHash (fst c) = h) (invoked st)"

text \<open>\<open>h\<close> is in the cache in every state the schedule goes through, the first included.\<close>

fun resident :: "(string \<Rightarrow> jsnum) \<Rightarrow> string \<Rightarrow> MonitorState \<Rightarrow> event list \<Rightarrow> bool" where
  "resident getTime h st [] = (h \<in> set (processedHashes st))"
| "resident getTime h st (ev # evs) =
     (h \<in> set (processedHashes st) \<and> resident getTime h (apply_event getTime st ev) evs)"

definition initialState :: MonitorState where
  "initialState = \<lparr>processedHashes = [], lastFetchTime = Map.empty, invoked = [], errorLog = []\<rparr>"

text \<open>
  \<open>h\<close> is never evicted along the schedule: a step that starts with \<open>h\<close> in the cache
  ends with \<open>h\<close> in the cache.
\<close>

fun kept :: "(string \<Rightarrow> jsnum) \<Rightarrow> string \<Rightarrow> MonitorState \<Rightarrow> event list \<Rightarrow> bool" where
  "kept getTime h st [] = True"
| "kept getTime h st (ev # evs) =
     ((h \<in> set (processedHashes st) \<longrightarrow> h \<in> set (processedHashes (apply_event getTime st ev)))
      \<and> kept getTime h (apply_event getTime st ev) evs)"

text \<open>The consumer's calls that a run from \<open>st\<close> to \<open>st'\<close> added.\<close>

definition newCalls :: "MonitorState \<Rightarrow> MonitorState \<Rightarrow> (ActivityResponse \<times> TradeSignal) list" where
  "newCalls st st' = drop (length (invoked st)) (invoked st')"

text \<open>\<^verbatim>\<open>cutoffTime\<close> as \<^verbatim>\<open>fetchTraderActivities\<close> computes it.\<close>

definition cutoffOf :: "RuntimeEnv \<Rightarrow> int \<Rightarrow> jsnum" where
  "cutoffOf env dateNow = Num (of_int (dateNow div 1000) - aggregationWindowSeconds env)"

text \<open>
  Inputs after the repository's tests of the monitor: the activity they feed (with its time
  and hash left open), their environment, a date parser that knows no date, a consumer that
  always resolves, and a feed of \<open>n\<close> trades with hashes and times of their own.
\<close>

definition mockActivity :: "real \<Rightarrow> string \<Rightarrow> ActivityResponse" where
  "mockActivity t h =
     \<lparr>atype = ''TRADE'', timestamp = JNumber (Num t), conditionId = ''market-123'',
      asset = ''token-abc'', asize = Num 100, usdcSize = Num 50, price = Num 0.5,
      side = ''BUY'', outcomeIndex = Num 0, transactionHash = h\<rparr>"

definition mockEnv :: RuntimeEnv where
  "mockEnv = \<lparr>aggregationWindowSeconds = 300, fetchIntervalSeconds = 1, debugEnabled = False\<rparr>"

definition noDates :: "string \<Rightarrow> jsnum" where
  "noDates s = NaN"

definition alwaysResolves :: "nat \<Rightarrow> TradeSignal \<Rightarrow> error option" where
  "alwaysResolves k signal = None"

definition hashOf :: "nat \<Rightarrow> string" where
  "hashOf n = ''0x'' @ replicate n (CHR ''f'')"

definition freshTrade :: "nat \<Rightarrow> ActivityResponse" where
  "freshTrade i = mockActivity (of_nat (Suc i)) (hashOf i)"

text \<open>
  The calls of the consumer for one activity of one trader; a schedule in which every
  activity has a time (no date string that \<open>getTime\<close> cannot read); a consumer whose
  first call rejects.
\<close>

definition calls_of :: "string \<Rightarrow> ActivityResponse \<Rightarrow> MonitorState \<Rightarrow> (ActivityResponse \<times> TradeSignal) list" where
  "calls_of trader activity st =
     filter (\<lambda>c. fst c = activity \<and> sig_trader (snd c) = trader) (invoked st)"

fun timed_event :: "(string \<Rightarrow> jsnum) \<Rightarrow> event \<Rightarrow> bool" where
  "timed_event getTime (Process trader cutoffTime activity) = (activityTimeOf getTime activity \<noteq> NaN)"
| "timed_event getTime Cleanup = True"

definition timed :: "(string \<Rightarrow> jsnum) \<Rightarrow> event list \<Rightarrow> bool" where
  "timed getTime evs = list_all (timed_event getTime) evs"

definition failsOnce :: "nat \<Rightarrow> TradeSignal \<Rightarrow> error option" where
  "failsOnce k signal = (if k = 0 then Some (Failure ''Execution error'') else None)"

text \<open>
  A run in which an activity is forwarded a second time after the consumer rejected it: a
  trade whose \<^verbatim>\<open>timestamp\<close> is a string that is no date; the service after a tick in which
  the consumer rejects the first trade of a trader's feed; and the service after a second
  tick, in which that trader's feed brings the undated trade and the feed of another trader
  9999 new trades.
\<close>

definition undatedTrade :: ActivityResponse where
  "undatedTrade = (mockActivity 0 ''undated'')\<lparr>timestamp := JString ''soon''\<rparr>"

definition afterFailure :: MonitorState where
  "afterFailure =
     tick noDates failsOnce mockEnv [(''0xtrader1'', 0, Inr [freshTrade 0])] initialState"

definition afterEviction :: MonitorState where
  "afterEviction =
     tick noDates failsOnce mockEnv
       [(''0xtrader1'', 0, Inr [undatedTrade]),
        (''0xtrader2'', 0, Inr (map freshTrade [1..<10000]))]
       afterFailure"

section \<open>Retry with backoff\<close>

text \<open>
  \<^verbatim>\<open>retryWithBackoff\<close>, on the options \<^verbatim>\<open>opts\<close> it works with (those of the caller over
  \<^verbatim>\<open>defaultOptions\<close>). \<^verbatim>\<open>maxRetries\<close> counts retries and is a natural number here; the
  delays are finite numbers. The wrapped operation is given by what each of its calls does:
  \<open>operation k\<close> is the outcome of call number \<open>k\<close>, counted from \<open>0\<close>.

  A promise may reject with any value, and the loop looks at the value it caught twice: the
  warning reads \<^verbatim>\<open>lastError.message\<close>, which throws a \<^verbatim>\<open>TypeError\<close> when the value is
  \<^verbatim>\<open>undefined\<close> or \<^verbatim>\<open>null\<close>, and the last line tests it for truth. So a caught value is
  \<open>Truthy e\<close>, an \<^verbatim>\<open>Error\<close> or any other truthy value; \<open>Falsy\<close>, one of \<^verbatim>\<open>0\<close>, \<^verbatim>\<open>''\<close>,
  \<^verbatim>\<open>false\<close>, \<^verbatim>\<open>NaN\<close>, whose \<^verbatim>\<open>message\<close> can be read; or \<open>Nullish\<close>, \<^verbatim>\<open>undefined\<close> or \<^verbatim>\<open>null\<close>.
\<close>

datatype thrown = Truthy error | Falsy | Nullish

datatype 'a attempted = Returns 'a | Throws thrown

text \<open>
  \<open>logger\<close> tells whether the options carry a logger. The call \<^verbatim>\<open>opts.logger?.warn(...)\<close>
  evaluates its arguments only when they do; the logger itself is taken not to throw.
\<close>

record RetryOptions =
  maxRetries :: nat
  initialDelayMs :: real
  maxDelayMs :: real
  backoffMultiplier :: real
  logger :: bool

definition defaultOptions :: RetryOptions where
  "defaultOptions =
     \<lparr>maxRetries = 3, initialDelayMs = 1000, maxDelayMs = 30000, backoffMultiplier = 2,
      logger = False\<rparr>"

text \<open>
  What a run did: its result, how often it called the operation, the delays it slept
  (\<^verbatim>\<open>sleep(delay)\<close>, in order) and the warnings it logged (\<^verbatim>\<open>attempt + 1\<close> and the value
  caught).
\<close>

record 'a RetryRun =
  retry_result :: "error + 'a"
  retry_calls :: nat
  retry_delays :: "real list"
  retry_warned :: "(nat \<times> thrown) list"

record RetryVars =
  attempt :: nat
  delay :: real
  lastError :: "thrown option"
  calls :: nat
  slept :: "real list"
  warned :: "(nat \<times> thrown) list"

text \<open>
  The last line: \<^verbatim>\<open>throw lastError || new Error('Retry failed with unknown error')\<close>. Only
  a truthy \<^verbatim>\<open>lastError\<close> is thrown as it is.
\<close>

definition unknownError :: error where
  "unknownError = Failure ''Retry failed with unknown error''"

definition retryThrow :: "thrown option \<Rightarrow> error" where
  "retryThrow lastErr = (case lastErr of Some (Truthy e) \<Rightarrow> e | _ \<Rightarrow> unknownError)"

text \<open>
  The \<^verbatim>\<open>TypeError\<close> of \<^verbatim>\<open>lastError.message\<close> on \<^verbatim>\<open>undefined\<close> or \<^verbatim>\<open>null\<close>. It is thrown inside
  the \<^verbatim>\<open>catch\<close> block, so it leaves the loop and the function.
\<close>

definition messageTypeError :: error where
  "messageTypeError = Failure ''TypeError: Cannot read properties of undefined''"

definition warnThrows :: "RetryOptions \<Rightarrow> thrown \<Rightarrow> bool" where
  "warnThrows opts err = (logger opts \<and> err = Nullish)"

function retryLoop :: "(nat \<Rightarrow> 'a attempted) \<Rightarrow> RetryOptions \<Rightarrow> RetryVars \<Rightarrow> 'a RetryRun" where
  "retryLoop operation opts v =
     (if attempt v \<le> maxRetries opts then
        (case operation (calls v) of
           Returns r \<Rightarrow>
             \<lparr>retry_result = Inr r, retry_calls = calls v + 1,
              retry_delays = slept v, retry_warned = warned v\<rparr>
         | Throws err \<Rightarrow>
             if attempt v = maxRetries opts then
               \<lparr>retry_result = Inl (retryThrow (Some err)), retry_calls = calls v + 1,
                retry_delays = slept v, retry_warned = warned v\<rparr>
             else if warnThrows opts err then
               \<lparr>retry_result = Inl messageTypeError, retry_calls = calls v + 1,
                retry_delays = slept v, retry_warned = warned v\<rparr>
             else
               retryLoop operation opts
                 \<lparr>attempt = attempt v + 1,
                  delay = min (delay v * backoffMultiplier opts) (maxDelayMs opts),
                  lastError = Some err,
                  calls = calls v + 1,
                  slept = slept v @ [delay v],
                  warned = (if logger opts then warned v @ [(attempt v + 1, err)]
                            else warned v)\<rparr>)
      else
        \<lparr>retry_result = Inl (retryThrow (lastError v)),
         retry_calls = calls v, retry_delays = slept v, retry_warned = warned v\<rparr>)"
  by pat_completeness auto
termination
  by (relation "measure (\<lambda>(operation, opts, v). Suc (maxRetries opts) - attempt v)") auto

definition retryWithBackoff :: "(nat \<Rightarrow> 'a attempted) \<Rightarrow> RetryOptions \<Rightarrow> 'a RetryRun" where
  "retryWithBackoff operation opts =
     retryLoop operation opts
       \<lparr>attempt = 0, delay = initialDelayMs opts, lastError = None,
        calls = 0, slept = [], warned = []\<rparr>"

text \<open>An operation that fails on its first two calls and then succeeds with \<open>v\<close>.\<close>

definition failsTwice :: "'a \<Rightarrow> nat \<Rightarrow> 'a attempted" where
  "failsTwice v k = (if k < 2 then Throws (Truthy (Failure ''down'')) else Returns v)"

text \<open>
  An operation whose first call rejects with \<^verbatim>\<open>undefined\<close> (\<^verbatim>\<open>Promise.reject()\<close>) and whose
  later calls succeed, one that always rejects with \<^verbatim>\<open>undefined\<close>, one that always rejects
  with the same \<^verbatim>\<open>Error\<close>, one that always rejects with \<^verbatim>\<open>0\<close>, and the default options
  with a logger.
\<close>

definition rejectsBare :: "'a \<Rightarrow> nat \<Rightarrow> 'a attempted" where
  "rejectsBare v k = (if k = 0 then Throws Nullish else Returns v)"

definition alwaysBare :: "nat \<Rightarrow> string attempted" where
  "alwaysBare k = Throws Nullish"

definition alwaysDown :: "nat \<Rightarrow> string attempted" where
  "alwaysDown k = Throws (Truthy (Failure ''down''))"

definition alwaysZero :: "nat \<Rightarrow> string attempted" where
  "alwaysZero k = Throws Falsy"

definition loggedOptions :: RetryOptions where
  "loggedOptions = defaultOptions\<lparr>logger := True\<rparr>"

text \<open>
  The delay before retry number \<open>i\<close> as the specification words it: it starts at
  \<^verbatim>\<open>initialDelayMs\<close> and is multiplied by \<^verbatim>\<open>backoffMultiplier\<close> at each retry, capped at
  \<^verbatim>\<open>maxDelayMs\<close>.
\<close>

primrec backoffDelay :: "RetryOptions \<Rightarrow> nat \<Rightarrow> real" where
  "backoffDelay opts 0 = initialDelayMs opts"
| "backoffDelay opts (Suc i) = min (backoffDelay opts i * backoffMultiplier opts) (maxDelayMs opts)"

text \<open>
  A call that is retried: it throws, and the warning about it does not. The loop goes on
  after such a call unless it was the last one allowed.
\<close>

fun retried :: "RetryOptions \<Rightarrow> 'a attempted \<Rightarrow> bool" where
  "retried opts (Throws err) = (\<not> warnThrows opts err)"
| "retried opts (Returns r) = False"

text \<open>
  The invariant of the loop, and what a finished run satisfies: it made between one and
  \<open>maxRetries + 1\<close> calls, slept the backoff delays between them, every call but the last
  was retried, and its result is that of the last call: its value, if it returned; what
  the last line throws, if it was call number \<open>maxRetries\<close>; the \<^verbatim>\<open>TypeError\<close> of the
  warning otherwise.
\<close>

definition loopVarsOk :: "(nat \<Rightarrow> 'a attempted) \<Rightarrow> RetryOptions \<Rightarrow> RetryVars \<Rightarrow> bool" where
  "loopVarsOk operation opts v =
     (attempt v \<le> maxRetries opts \<and> calls v = attempt v
      \<and> delay v = backoffDelay opts (attempt v)
      \<and> slept v = map (backoffDelay opts) [0..<attempt v]
      \<and> (\<forall>j < attempt v. retried opts (operation j)))"

definition lastCall :: "(nat \<Rightarrow> 'a attempted) \<Rightarrow> RetryOptions \<Rightarrow> nat \<Rightarrow> error + 'a" where
  "lastCall operation opts k =
     (case operation k of
        Returns r \<Rightarrow> Inr r
      | Throws err \<Rightarrow>
          if k = maxRetries opts then Inl (retryThrow (Some err)) else Inl messageTypeError)"

definition runOk :: "(nat \<Rightarrow> 'a attempted) \<Rightarrow> RetryOptions \<Rightarrow> 'a RetryRun \<Rightarrow> bool" where
  "runOk operation opts run =
     (1 \<le> retry_calls run \<and> retry_calls run \<le> maxRetries opts + 1
      \<and> retry_delays run = map (backoffDelay opts) [0..<retry_calls run - 1]
      \<and> (\<forall>j < retry_calls run - 1. retried opts (operation j))
      \<and> (retry_calls run - 1 < maxRetries opts \<longrightarrow> \<not> retried opts (operation (retry_calls run - 1)))
      \<and> retry_result run = lastCall operation opts (retry_calls run - 1))"

section \<open>Circuit breaker\<close>

text \<open>
  \<^verbatim>\<open>CircuitBreaker\<close>. Thresholds and counters are natural numbers, times are integer
  milliseconds. The wrapped operation acts on a world \<open>'w\<close> from which \<open>clock\<close> reads
  \<^verbatim>\<open>Date.now()\<close>; it is handed the breaker as it stands when the operation is called
  (\<^verbatim>\<open>getState\<close> and \<^verbatim>\<open>getStats\<close> are public). An operation that is not called leaves the
  world as it was. The breaker does not look at what an operation threw: it counts the
  failure and throws the same value again.
\<close>

datatype 'a outcome = Resolved 'a | Rejected error

datatype CircuitBreakerState = CLOSED | OPEN | HALF_OPEN

record CircuitBreakerOptions =
  failureThreshold :: nat
  successThreshold :: nat
  timeout :: int

record CircuitBreaker =
  state :: CircuitBreakerState
  failureCount :: nat
  successCount :: nat
  nextAttempt :: int
  options :: CircuitBreakerOptions

text \<open>
  The error \<^verbatim>\<open>execute\<close> makes itself (\<^verbatim>\<open>Circuit breaker is OPEN for ... Try again later.\<close>),
  and an error of the wrapped operation, thrown on unchanged.
\<close>

datatype breaker_error = CircuitOpen | OperationError error

definition newCircuitBreaker :: "CircuitBreakerOptions \<Rightarrow> int \<Rightarrow> CircuitBreaker" where
  "newCircuitBreaker opts now =
     \<lparr>state = CLOSED, failureCount = 0, successCount = 0, nextAttempt = now, options = opts\<rparr>"

definition onSuccess :: "CircuitBreaker \<Rightarrow> CircuitBreaker" where
  "onSuccess cb =
     (let cb1 = cb\<lparr>failureCount := 0\<rparr> in
      if state cb1 = HALF_OPEN then
        let cb2 = cb1\<lparr>successCount := successCount cb1 + 1\<rparr> in
        if successCount cb2 \<ge> successThreshold (options cb2)
        then cb2\<lparr>state := CLOSED, successCount := 0\<rparr>
        else cb2
      else cb1)"

definition onFailure :: "int \<Rightarrow> CircuitBreaker \<Rightarrow> CircuitBreaker" where
  "onFailure now cb =
     (let cb1 = cb\<lparr>failureCount := failureCount cb + 1\<rparr> in
      if state cb1 = HALF_OPEN then
        cb1\<lparr>state := OPEN, nextAttempt := now + timeout (options cb1), successCount := 0\<rparr>
      else if failureCount cb1 \<ge> failureThreshold (options cb1) then
        cb1\<lparr>state := OPEN, nextAttempt := now + timeout (options cb1)\<rparr>
      else cb1)"

definition execute ::
  "('w \<Rightarrow> int) \<Rightarrow> CircuitBreaker \<Rightarrow> (CircuitBreaker \<Rightarrow> 'w \<Rightarrow> 'a outcome \<times> 'w) \<Rightarrow> 'w
     \<Rightarrow> (breaker_error + 'a) \<times> CircuitBreaker \<times> 'w" where
  "execute clock cb operation w =
     (if state cb = OPEN \<and> clock w < nextAttempt cb then (Inl CircuitOpen, cb, w)
      else
        let cb1 = (if state cb = OPEN then cb\<lparr>state := HALF_OPEN, successCount := 0\<rparr> else cb)
        in (case operation cb1 w of
              (Resolved r, w') \<Rightarrow> (Inr r, onSuccess cb1, w')
            | (Rejected err, w') \<Rightarrow> (Inl (OperationError err), onFailure (clock w') cb1, w')))"

text \<open>Calls of \<^verbatim>\<open>execute\<close> one after the other, each with its own operation.\<close>

fun executeAll ::
  "('w \<Rightarrow> int) \<Rightarrow> CircuitBreaker \<Rightarrow> (CircuitBreaker \<Rightarrow> 'w \<Rightarrow> 'a outcome \<times> 'w) list \<Rightarrow> 'w
     \<Rightarrow> CircuitBreaker \<times> 'w" where
  "executeAll clock cb [] w = (cb, w)"
| "executeAll clock cb (operation # rest) w =
     (case execute clock cb operation w of (_, cb', w') \<Rightarrow> executeAll clock cb' rest w')"

definition failing :: "(CircuitBreaker \<Rightarrow> 'w \<Rightarrow> 'a outcome \<times> 'w) \<Rightarrow> bool" where
  "failing operation = (\<forall>cb w. \<exists>err. fst (operation cb w) = Rejected err)"

text \<open>
  Two operations on a world that is the clock reading: one fails and one succeeds, each
  taking a millisecond; the third records in the world the state it finds the breaker in
  (as a number: \<open>0\<close> closed, \<open>1\<close> open, \<open>2\<close> half open) and succeeds.
\<close>

definition failOp :: "CircuitBreaker \<Rightarrow> int \<Rightarrow> unit outcome \<times> int" where
  "failOp cb w = (Rejected (Failure ''down''), w + 1)"

definition okOp :: "CircuitBreaker \<Rightarrow> int \<Rightarrow> unit outcome \<times> int" where
  "okOp cb w = (Resolved (), w + 1)"

definition probeOp :: "CircuitBreaker \<Rightarrow> int \<Rightarrow> unit outcome \<times> int" where
  "probeOp cb w =
     (Resolved (), (case state cb of CLOSED \<Rightarrow> 0 | OPEN \<Rightarrow> 1 | HALF_OPEN \<Rightarrow> 2))"

text \<open>
  The options of the specification's example, the clock of a world that is the clock
  reading, and the breaker after three failures at times 1, 2 and 3.
\<close>

definition testOptions :: CircuitBreakerOptions where
  "testOptions = \<lparr>failureThreshold = 3, successThreshold = 2, timeout = 60000\<rparr>"

definition wallClock :: "int \<Rightarrow> int" where
  "wallClock w = w"

definition openedBreaker :: CircuitBreaker where
  "openedBreaker =
     \<lparr>state = OPEN, failureCount = 3, successCount = 0, nextAttempt = 60003,
      options = testOptions\<rparr>"

section \<open>Order executor\<close>

text \<open>
  \<^verbatim>\<open>postOrder\<close>. A level of the book carries its price and size as decimal strings; the
  model holds what \<^verbatim>\<open>parseFloat\<close> makes of them (\<^verbatim>\<open>NaN\<close> for a string that is no
  number). A side of the book that is missing counts as empty, as the code treats it.
  The exchange client is given by what each call does: \<open>getOrderBook k\<close> answers the
  \<open>k\<close>-th fetch of the book (the first is number \<open>0\<close>), \<open>submitOrder k\<close> the \<open>k\<close>-th
  submission (\<^verbatim>\<open>createMarketOrder\<close> then \<^verbatim>\<open>postOrder\<close> with \<^verbatim>\<open>OrderType.FOK\<close>):
  \<open>Inr success\<close> is the response's \<^verbatim>\<open>success\<close> flag, \<open>Inl e\<close> an exception of either call.
\<close>

datatype OrderSide = BUY | SELL

record OrderLevel =
  level_price :: jsnum
  level_size :: jsnum

record OrderBook =
  asks :: "OrderLevel list"
  bids :: "OrderLevel list"

record Market =
  tokens :: "string list"

record OrderArgs =
  order_side :: OrderSide
  tokenID :: "string option"
  amount :: jsnum
  order_price :: jsnum

record ClobClient =
  getMarket :: "string \<Rightarrow> error + Market option"
  getOrderBook :: "nat \<Rightarrow> string option \<Rightarrow> error + OrderBook"
  submitOrder :: "nat \<Rightarrow> OrderArgs \<Rightarrow> error + bool"

record PostOrderInput =
  client :: ClobClient
  marketId :: string
  outcome :: OrderOutcome
  input_side :: OrderSide
  sizeUsd :: jsnum
  expectedPrice :: "jsnum option"
  maxSlippagePercent :: "jsnum option"
  maxAcceptablePrice :: "jsnum option"

text \<open>
  The errors \<^verbatim>\<open>postOrder\<close> throws, by the place that throws them; \<open>ClientError\<close> is an
  exception of the exchange client passed on.
\<close>

datatype order_error =
  MarketNotFound | NoLevels | SlippageExceeded | PriceProtection | ClientError error

text \<open>
  The variables of the fill loop, with the number of book fetches made so far and the
  orders submitted so far (\<open>warnings\<close> are the slippage values passed to
  \<^verbatim>\<open>logger?.warn\<close>).
\<close>

record FillState =
  remaining :: jsnum
  retryCount :: nat
  bookCalls :: nat
  submitted :: "OrderArgs list"
  warnings :: "jsnum list"

definition fillMaxRetries :: nat where
  "fillMaxRetries = 3"

text \<open>\<^verbatim>\<open>market.tokens[outcomeIndex]\<close>: \<^verbatim>\<open>undefined\<close> beyond the end of the array.\<close>

definition tokenAt :: "Market \<Rightarrow> nat \<Rightarrow> string option" where
  "tokenAt market i = (if i < length (tokens market) then Some (tokens market ! i) else None)"

definition slippageOf :: "bool \<Rightarrow> jsnum \<Rightarrow> jsnum \<Rightarrow> jsnum" where
  "slippageOf isBuy bestPrice expected =
     (if isBuy
      then js_mul (js_div (js_sub bestPrice expected) expected) (Num 100)
      else js_mul (js_div (js_sub expected bestPrice) expected) (Num 100))"

text \<open>
  One pass of the body of the \<^verbatim>\<open>while\<close> loop, entered with the loop test true: \<open>Inl\<close>
  leaves the loop (by \<^verbatim>\<open>break\<close> with \<open>Inr ()\<close>, by an exception with \<open>Inl e\<close>), \<open>Inr\<close>
  goes round again. \<open>submitLevel\<close> is the part of the body from
  \<^verbatim>\<open>const level = currentLevels[0]\<close> on, \<open>st1\<close> being the state with the fetch counted;
  the two branches on \<^verbatim>\<open>isBuy\<close> in the source compute the same.

  The product, the quotient and the difference are those of the section on numbers, which
  does not round: \<open>js_sub\<close> stands for the \<^verbatim>\<open>-=\<close> of the source, whose result in double
  precision may differ from the exact difference, and may even be \<^verbatim>\<open>remaining\<close> itself when
  the fill is small against it. What is proved below about how long the loop runs
  therefore rests on the attempt counter and on the responses of the exchange alone, and
  never on the remaining notional going down.
\<close>

definition submitLevel ::
  "ClobClient \<Rightarrow> bool \<Rightarrow> string option \<Rightarrow> FillState \<Rightarrow> OrderLevel
     \<Rightarrow> ((order_error + unit) \<times> FillState) + FillState" where
  "submitLevel cl isBuy tokenId st1 level =
     (let levelPrice = level_price level;
          levelSize = level_size level;
          levelValue = js_mul levelSize levelPrice;
          orderValue = js_min (remaining st1) levelValue;
          orderSize = js_div orderValue levelPrice;
          orderArgs = \<lparr>order_side = (if isBuy then BUY else SELL), tokenID = tokenId,
                        amount = orderSize, order_price = levelPrice\<rparr>;
          st2 = st1\<lparr>submitted := submitted st1 @ [orderArgs]\<rparr>
      in (case submitOrder cl (length (submitted st1)) orderArgs of
            Inr success \<Rightarrow>
              if success
              then Inr (st2\<lparr>remaining := js_sub (remaining st1) orderValue, retryCount := 0\<rparr>)
              else Inr (st2\<lparr>retryCount := retryCount st1 + 1\<rparr>)
          | Inl e \<Rightarrow>
              if retryCount st1 + 1 \<ge> fillMaxRetries
              then Inl (Inl (ClientError e), st2\<lparr>retryCount := retryCount st1 + 1\<rparr>)
              else Inr (st2\<lparr>retryCount := retryCount st1 + 1\<rparr>)))"

definition fillStep ::
  "ClobClient \<Rightarrow> bool \<Rightarrow> string option \<Rightarrow> FillState
     \<Rightarrow> ((order_error + unit) \<times> FillState) + FillState" where
  "fillStep cl isBuy tokenId st =
     (let st1 = st\<lparr>bookCalls := bookCalls st + 1\<rparr> in
      case getOrderBook cl (bookCalls st) tokenId of
        Inl e \<Rightarrow> Inl (Inl (ClientError e), st1)
      | Inr currentOrderBook \<Rightarrow>
          (case (if isBuy then asks currentOrderBook else bids currentOrderBook) of
             [] \<Rightarrow> Inl (Inr (), st1)
           | level # _ \<Rightarrow> submitLevel cl isBuy tokenId st1 level))"

definition fillTest :: "FillState \<Rightarrow> bool" where
  "fillTest st = (js_gt (remaining st) (Num 0.01) \<and> retryCount st < fillMaxRetries)"

text \<open>The \<^verbatim>\<open>while\<close> loop; \<open>None\<close> is a loop that never ends.\<close>

partial_function (option) fillLoop ::
  "ClobClient \<Rightarrow> bool \<Rightarrow> string option \<Rightarrow> FillState
     \<Rightarrow> ((order_error + unit) \<times> FillState) option" where
  "fillLoop cl isBuy tokenId st =
     (if fillTest st then
        (case fillStep cl isBuy tokenId st of
           Inl finished \<Rightarrow> Some finished
         | Inr st' \<Rightarrow> fillLoop cl isBuy tokenId st')
      else Some (Inr (), st))"

text \<open>
  The block \<^verbatim>\<open>if (expectedPrice) { ... }\<close>, entered with a truthy expected price: the
  slippage, the warning if it is positive, and inside that the test against the ceiling.
\<close>

definition slippageCheck :: "bool \<Rightarrow> jsnum \<Rightarrow> jsnum \<Rightarrow> jsnum \<Rightarrow> FillState
     \<Rightarrow> (order_error \<times> FillState) + FillState" where
  "slippageCheck isBuy bestPrice expected maxSlippage st1 =
     (let slippage = slippageOf isBuy bestPrice expected in
      if js_gt slippage (Num 0) then
        let st2 = st1\<lparr>warnings := warnings st1 @ [slippage]\<rparr> in
        if js_gt slippage maxSlippage then Inl (SlippageExceeded, st2) else Inr st2
      else Inr st1)"

text \<open>
  \<^verbatim>\<open>postOrder\<close> up to the fill loop: the market, the first fetch of the book, the slippage
  test and the price bound. \<open>Inr\<close> is the state the loop starts in.
\<close>

definition postOrderChecks :: "PostOrderInput \<Rightarrow> (order_error \<times> FillState) + (bool \<times> string option \<times> FillState)" where
  "postOrderChecks input =
     (let st0 = \<lparr>remaining = sizeUsd input, retryCount = 0, bookCalls = 0,
                 submitted = [], warnings = []\<rparr>;
          maxSlippage = (case maxSlippagePercent input of None \<Rightarrow> Num 2 | Some m \<Rightarrow> m) in
      case getMarket (client input) (marketId input) of
        Inl e \<Rightarrow> Inl (ClientError e, st0)
      | Inr None \<Rightarrow> Inl (MarketNotFound, st0)
      | Inr (Some market) \<Rightarrow>
          let outcomeIndex = (if outcome input = YES then 0 else 1);
              tokenId = tokenAt market outcomeIndex;
              st1 = st0\<lparr>bookCalls := 1\<rparr>
          in (case getOrderBook (client input) 0 tokenId of
                Inl e \<Rightarrow> Inl (ClientError e, st1)
              | Inr orderBook \<Rightarrow>
                  let isBuy = (input_side input = BUY);
                      levels = (if isBuy then asks orderBook else bids orderBook)
                  in (case levels of
                        [] \<Rightarrow> Inl (NoLevels, st1)
                      | best # _ \<Rightarrow>
                          let bestPrice = level_price best in
                          (case (case expectedPrice input of
                                   Some e \<Rightarrow>
                                     if js_truthy e
                                     then slippageCheck isBuy bestPrice e maxSlippage st1
                                     else Inr st1
                                 | None \<Rightarrow> Inr st1) of
                             Inl thrown \<Rightarrow> Inl thrown
                           | Inr st2 \<Rightarrow>
                               if (case maxAcceptablePrice input of
                                     Some m \<Rightarrow> js_truthy m \<and>
                                       ((isBuy \<and> js_gt bestPrice m) \<or>
                                        (\<not> isBuy \<and> js_lt bestPrice m))
                                   | None \<Rightarrow> False)
                               then Inl (PriceProtection, st2)
                               else Inr (isBuy, tokenId, st2)))))"

definition postOrder :: "PostOrderInput \<Rightarrow> ((order_error + unit) \<times> FillState) option" where
  "postOrder input =
     (case postOrderChecks input of
        Inl (e, st) \<Rightarrow> Some (Inl e, st)
      | Inr (isBuy, tokenId, st) \<Rightarrow> fillLoop (client input) isBuy tokenId st)"

text \<open>
  The measure that goes down with every pass of the loop when the exchange accepts none of
  the submissions from number \<open>n\<close> on: it counts the submissions that may still be accepted
  and the attempts left. It does not look at the remaining notional.
\<close>

definition fillMeasure :: "nat \<Rightarrow> FillState \<Rightarrow> nat" where
  "fillMeasure n st = 4 * (n - length (submitted st)) + (3 - retryCount st)"

text \<open>
  The state of the loop after \<open>n\<close> passes that all went round again, if it makes that many:
  \<open>None\<close> if the loop is left before.
\<close>

fun fillAfter :: "ClobClient \<Rightarrow> bool \<Rightarrow> string option \<Rightarrow> nat \<Rightarrow> FillState \<Rightarrow> FillState option" where
  "fillAfter cl isBuy tokenId 0 st = Some st"
| "fillAfter cl isBuy tokenId (Suc n) st =
     (if fillTest st then
        (case fillStep cl isBuy tokenId st of
           Inl finished \<Rightarrow> None
         | Inr st' \<Rightarrow> fillAfter cl isBuy tokenId n st')
      else None)"

text \<open>
  The parts of a pass by name: the best level of the book the pass fetches, the fillable
  value \<^verbatim>\<open>orderValue\<close>, the order \<^verbatim>\<open>orderArgs\<close>, and the state once the order is
  submitted (fetch and submission counted).
\<close>

definition bestLevel :: "ClobClient \<Rightarrow> bool \<Rightarrow> string option \<Rightarrow> FillState \<Rightarrow> OrderLevel option" where
  "bestLevel cl isBuy tokenId st =
     (case getOrderBook cl (bookCalls st) tokenId of
        Inl e \<Rightarrow> None
      | Inr book \<Rightarrow> (case (if isBuy then asks book else bids book) of
                       [] \<Rightarrow> None | level # _ \<Rightarrow> Some level))"

definition fillableValue :: "FillState \<Rightarrow> OrderLevel \<Rightarrow> jsnum" where
  "fillableValue st level = js_min (remaining st) (js_mul (level_size level) (level_price level))"

definition orderFor :: "bool \<Rightarrow> string option \<Rightarrow> FillState \<Rightarrow> OrderLevel \<Rightarrow> OrderArgs" where
  "orderFor isBuy tokenId st level =
     \<lparr>order_side = (if isBuy then BUY else SELL), tokenID = tokenId,
      amount = js_div (fillableValue st level) (level_price level),
      order_price = level_price level\<rparr>"

definition afterSubmit :: "bool \<Rightarrow> string option \<Rightarrow> FillState \<Rightarrow> OrderLevel \<Rightarrow> FillState" where
  "afterSubmit isBuy tokenId st level =
     st\<lparr>bookCalls := bookCalls st + 1,
        submitted := submitted st @ [orderFor isBuy tokenId st level]\<rparr>"

text \<open>
  The error the loop ended with was thrown by its last fetch of the book, or by its last
  submission with the attempt counter at its bound.
\<close>

definition raisedBy :: "ClobClient \<Rightarrow> string option \<Rightarrow> order_error \<Rightarrow> FillState \<Rightarrow> bool" where
  "raisedBy cl tokenId err st' =
     (case err of
        ClientError e \<Rightarrow>
          getOrderBook cl (bookCalls st' - 1) tokenId = Inl e
          \<or> (fillMaxRetries \<le> retryCount st' \<and> submitted st' \<noteq> []
              \<and> submitOrder cl (length (submitted st') - 1) (last (submitted st')) = Inl e)
      | _ \<Rightarrow> False)"




text \<open>
  Exchanges for examples: a market with two tokens, a book whose ask side is always
  \<open>levels\<close>, and one answer to every submission; and a request to buy 10 USD of the first
  outcome.
\<close>

definition sampleMarket :: Market where
  "sampleMarket = \<lparr>tokens = [''token-yes'', ''token-no'']\<rparr>"

definition constClient :: "OrderLevel list \<Rightarrow> error + bool \<Rightarrow> ClobClient" where
  "constClient levels answer =
     \<lparr>getMarket = (\<lambda>m. Inr (Some sampleMarket)),
      getOrderBook = (\<lambda>k t. Inr \<lparr>asks = levels, bids = []\<rparr>),
      submitOrder = (\<lambda>k a. answer)\<rparr>"

definition buyInput :: "ClobClient \<Rightarrow> jsnum option \<Rightarrow> PostOrderInput" where
  "buyInput cl expected =
     \<lparr>client = cl, marketId = ''market-123'', outcome = YES, input_side = BUY,
      sizeUsd = Num 10, expectedPrice = expected, maxSlippagePercent = None,
      maxAcceptablePrice = None\<rparr>"

definition stuckClient :: ClobClient where
  "stuckClient = constClient [\<lparr>level_price = Num 0.5, level_size = Num 0\<rparr>] (Inr True)"

definition throwingClient :: ClobClient where
  "throwingClient =
     constClient [\<lparr>level_price = Num 0.5, level_size = Num 100\<rparr>] (Inl (Failure ''network''))"

definition rejectingClient :: ClobClient where
  "rejectingClient = constClient [\<lparr>level_price = Num 0.5, level_size = Num 100\<rparr>] (Inr False)"

definition fillingClient :: ClobClient where
  "fillingClient = constClient [\<lparr>level_price = Num 0.55, level_size = Num 100\<rparr>] (Inr True)"

text \<open>
  A level at price 0.5 and the order the loop submits for 10 USD against it; the state in
  which the loop starts for the request, and the same on its third attempt.
\<close>

definition halfLevel :: OrderLevel where
  "halfLevel = \<lparr>level_price = Num 0.5, level_size = Num 100\<rparr>"

definition halfOrder :: OrderArgs where
  "halfOrder = \<lparr>order_side = BUY, tokenID = Some ''token-yes'', amount = Num 20, order_price = Num 0.5\<rparr>"

definition startState :: FillState where
  "startState = \<lparr>remaining = Num 10, retryCount = 0, bookCalls = 1, submitted = [], warnings = []\<rparr>"

definition thirdTry :: FillState where
  "thirdTry = startState\<lparr>retryCount := 2\<rparr>"

text \<open>
  An exchange that accepts the first order and rejects all later ones, against a best ask
  worth 5 USD; one that accepts every order but whose book is empty from its third fetch
  on; and the order the loop submits against that level.
\<close>

definition fiveLevel :: OrderLevel where
  "fiveLevel = \<lparr>level_price = Num 0.5, level_size = Num 10\<rparr>"

definition fiveOrder :: OrderArgs where
  "fiveOrder = \<lparr>order_side = BUY, tokenID = Some ''token-yes'', amount = Num 10, order_price = Num 0.5\<rparr>"

definition fillsOnce :: ClobClient where
  "fillsOnce =
     \<lparr>getMarket = (\<lambda>m. Inr (Some sampleMarket)),
      getOrderBook = (\<lambda>k t. Inr \<lparr>asks = [fiveLevel], bids = []\<rparr>),
      submitOrder = (\<lambda>k a. Inr (k = 0))\<rparr>"

definition emptyingClient :: ClobClient where
  "emptyingClient =
     \<lparr>getMarket = (\<lambda>m. Inr (Some sampleMarket)),
      getOrderBook = (\<lambda>k t. Inr \<lparr>asks = (if k < 2 then [fiveLevel] else []), bids = []\<rparr>),
      submitOrder = (\<lambda>k a. Inr True)\<rparr>"

text \<open>
  The loop of the request after one accepted order of 5 USD, and after two orders that
  were not accepted.
\<close>

definition halfFilled :: FillState where
  "halfFilled = \<lparr>remaining = Num 5, retryCount = 0, bookCalls = 2, submitted = [fiveOrder],
                  warnings = []\<rparr>"

definition twoFailed :: FillState where
  "twoFailed = \<lparr>remaining = Num 10, retryCount = 2, bookCalls = 3,
                 submitted = [halfOrder, halfOrder], warnings = []\<rparr>"

section \<open>Sizing engine\<close>

text \<open>The input and the result of \<^verbatim>\<open>computeProportionalSizing\<close>, as its caller and its tests use them.\<close>

record CopyInputs =
  yourUsdBalance :: jsnum
  traderUsdBalance :: jsnum
  traderTradeUsd :: jsnum
  multiplier :: jsnum

record SizingResult =
  targetUsdSize :: jsnum
  ratio :: jsnum

text \<open>Modelled from the spec: the configured minimum of section 4.2, 1 USD.\<close>

definition MIN_TRADE_USD :: jsnum where
  "MIN_TRADE_USD = Num 1"

text \<open>
  Modelled from the spec: \<^verbatim>\<open>computeProportionalSizing\<close> lives in
  \<^verbatim>\<open>config/copy-strategy\<close>, which is not among the sources (only its tests and its caller
  are). The definition follows section 4.2 of the specification: the two balances are
  floored at \<open>0\<close>, the ratio is the follower's balance over the trader's balance plus the
  trade (\<open>0\<close> if that sum is \<open>0\<close>), the target is trade times ratio times multiplier, and a
  target below the minimum of 1 USD or not finite is replaced by the minimum, the ratio kept.
\<close>

definition computeProportionalSizing :: "CopyInputs \<Rightarrow> SizingResult" where
  "computeProportionalSizing input =
     (let followerBalance = js_max (Num 0) (yourUsdBalance input);
          traderBalance = js_max (Num 0) (traderUsdBalance input);
          denominator = js_add traderBalance (traderTradeUsd input);
          r = (if denominator = Num 0 then Num 0 else js_div followerBalance denominator);
          target = js_mul (js_mul (traderTradeUsd input) r) (multiplier input)
      in if js_lt target MIN_TRADE_USD \<or> \<not> js_isFinite target
         then \<lparr>targetUsdSize = MIN_TRADE_USD, ratio = r\<rparr>
         else \<lparr>targetUsdSize = target, ratio = r\<rparr>)"

text \<open>
  Modelled from the spec: the ratio and the target of section 4.2 on their own,
  \<open>B_f / (B_t + S_t)\<close> with both balances floored at \<open>0\<close> (\<open>0\<close> if the denominator is
  \<open>0\<close>), and \<open>S_t \<times> ratio \<times> M\<close>.
\<close>

definition sizingRatio :: "CopyInputs \<Rightarrow> jsnum" where
  "sizingRatio input =
     (if js_add (js_max (Num 0) (traderUsdBalance input)) (traderTradeUsd input) = Num 0
      then Num 0
      else js_div (js_max (Num 0) (yourUsdBalance input))
             (js_add (js_max (Num 0) (traderUsdBalance input)) (traderTradeUsd input)))"

definition sizingTarget :: "CopyInputs \<Rightarrow> jsnum" where
  "sizingTarget input = js_mul (js_mul (traderTradeUsd input) (sizingRatio input)) (multiplier input)"

section \<open>Properties of the trade monitor\<close>

subsection \<open>The loop body\<close>

lemma processActivity_cases:
  "processActivity g tr c a st = (None, st) \<or>
   (transactionHash a \<notin> set (processedHashes st) \<and>
    atype a = ''TRADE'' \<and>
    \<not> js_lt (activityTimeOf g a) c \<and>
    \<not> js_le (activityTimeOf g a) (lastTimeOf st tr) \<and>
    processActivity g tr c a st =
      (Some (buildSignal g tr a),
       st\<lparr>processedHashes := processedHashes st @ [transactionHash a],
          lastFetchTime := (lastFetchTime st)(tr \<mapsto> js_max (lastTimeOf st tr) (activityTimeOf g a)),
          invoked := invoked st @ [(a, buildSignal g tr a)]\<rparr>))"
  by (simp add: processActivity_def Let_def set_add_def)

lemma processActivity_forward_adds:
  "fst (processActivity g tr c a st) \<noteq> None \<Longrightarrow>
   transactionHash a \<in> set (processedHashes (snd (processActivity g tr c a st)))"
  using processActivity_cases [of g tr c a st] by auto

lemma calls_for_cleanup: "calls_for h (cleanupHashCache st) = calls_for h st"
  by (simp add: calls_for_def cleanupHashCache_def Let_def)

lemma calls_for_step_resident:
  "h \<in> set (processedHashes st) \<Longrightarrow> calls_for h (apply_event g st ev) = calls_for h st"
proof (cases ev)
  case (Process tr c a)
  assume h: "h \<in> set (processedHashes st)"
  show ?thesis
    using processActivity_cases [of g tr c a st] h Process
    by (auto simp: calls_for_def)
next
  case Cleanup
  then show ?thesis by (simp add: calls_for_cleanup)
qed

lemma resident_no_calls:
  "resident g h st evs \<Longrightarrow> calls_for h (run_events g st evs) = calls_for h st"
proof (induction evs arbitrary: st)
  case Nil
  then show ?case by (simp add: run_events_def)
next
  case (Cons ev evs)
  then have "calls_for h (run_events g (apply_event g st ev) evs) = calls_for h (apply_event g st ev)"
    by simp
  moreover have "calls_for h (apply_event g st ev) = calls_for h st"
    using Cons.prems by (simp add: calls_for_step_resident)
  ultimately show ?case by (simp add: run_events_def)
qed

lemma kept_resident:
  "kept g h st evs \<Longrightarrow> h \<in> set (processedHashes st) \<Longrightarrow> resident g h st evs"
  by (induction evs arbitrary: st) auto

lemma calls_for_step:
  "calls_for h (apply_event g st ev) = calls_for h st \<or>
   (h \<in> set (processedHashes (apply_event g st ev)) \<and>
    length (calls_for h (apply_event g st ev)) = Suc (length (calls_for h st)))"
proof (cases ev)
  case (Process tr c a)
  show ?thesis
    using processActivity_cases [of g tr c a st] Process
    by (cases "transactionHash a = h") (auto simp: calls_for_def)
next
  case Cleanup
  then show ?thesis by (simp add: calls_for_cleanup)
qed

lemma kept_at_most_one:
  "kept g h st evs \<Longrightarrow>
   length (calls_for h (run_events g st evs)) \<le> Suc (length (calls_for h st))"
proof (induction evs arbitrary: st)
  case Nil
  then show ?case by (simp add: run_events_def)
next
  case (Cons ev evs)
  let ?st' = "apply_event g st ev"
  have k: "kept g h ?st' evs" using Cons.prems by simp
  have run: "run_events g st (ev # evs) = run_events g ?st' evs"
    by (simp add: run_events_def)
  from calls_for_step [of h g st ev] show ?case
  proof
    assume "calls_for h ?st' = calls_for h st"
    with Cons.IH [OF k] run show ?thesis by simp
  next
    assume a: "h \<in> set (processedHashes ?st') \<and>
      length (calls_for h ?st') = Suc (length (calls_for h st))"
    then have "resident g h ?st' evs" using k by (simp add: kept_resident)
    then have "calls_for h (run_events g ?st' evs) = calls_for h ?st'"
      by (rule resident_no_calls)
    with a run show ?thesis by simp
  qed
qed

text \<open>
  The loop of a task is a schedule: the state it leaves is the state after the passes for
  the activities it came to, in the order of the feed.
\<close>

lemma run_events_Cons: "run_events g st (ev # evs) = run_events g (apply_event g st ev) evs"
  by (simp add: run_events_def)

lemma processActivities_schedule:
  "\<exists>n \<le> length acts.
     snd (processActivities g k tr c acts st) = run_events g st (map (Process tr c) (take n acts))"
proof (induction acts arbitrary: st)
  case Nil
  then show ?case by (simp add: run_events_def)
next
  case (Cons a acts)
  obtain r st1 where p: "processActivity g tr c a st = (r, st1)"
    by (cases "processActivity g tr c a st")
  then have st1: "apply_event g st (Process tr c a) = st1" by simp
  from Cons.IH [of st1] obtain n where n: "n \<le> length acts"
    "snd (processActivities g k tr c acts st1) = run_events g st1 (map (Process tr c) (take n acts))"
    by blast
  have go: "\<exists>m \<le> length (a # acts). run_events g st1 (map (Process tr c) (take n acts))
      = run_events g st (map (Process tr c) (take m (a # acts)))"
    using n(1) st1 by (intro exI [of _ "Suc n"]) (simp add: run_events_Cons)
  have stop: "\<exists>m \<le> length (a # acts). st1 = run_events g st (map (Process tr c) (take m (a # acts)))"
    using st1 by (intro exI [of _ "Suc 0"]) (simp add: run_events_def)
  show ?case
  proof (cases r)
    case None
    with p n go show ?thesis by simp
  next
    case (Some signal)
    show ?thesis
    proof (cases "k (length (invoked st)) signal")
      case None
      with Some p n go show ?thesis by simp
    next
      case (Some e)
      with \<open>r = Some signal\<close> p stop show ?thesis by simp
    qed
  qed
qed

lemmas monitor_eval = processActivity_def activityTimeOf_def lastTimeOf_def set_add_def
  mockActivity_def initialState_def js_or_def js_max_def buildSignal_def cleanupHashCache_def
  MAX_HASH_CACHE_SIZE_def run_events_def calls_for_def noDates_def Let_def

text \<open>
  C1. A pass of the loop body that calls the consumer leaves the activity's hash in the
  cache. Along any schedule of passes and clean-ups, for any traders: while a hash is in the
  cache the consumer is called for no activity bearing it (each is skipped before the call);
  and along a schedule that never evicts the hash, the consumer is called at most once for it.
\<close>

theorem hash_forwarded_at_most_once:
  "(fst (processActivity getTime trader cutoffTime activity st) \<noteq> None \<longrightarrow>
      transactionHash activity \<in>
        set (processedHashes (snd (processActivity getTime trader cutoffTime activity st))))
   \<and> (resident getTime h st evs \<longrightarrow>
        calls_for h (run_events getTime st evs) = calls_for h st)
   \<and> (kept getTime h st evs \<longrightarrow>
        length (calls_for h (run_events getTime st evs)) \<le> Suc (length (calls_for h st)))"
  using processActivity_forward_adds resident_no_calls kept_at_most_one by blast

theorem hash_forwarded_at_most_once_witness:
  "fst (processActivity noDates ''0xtrader1'' (Num 700) (mockActivity 1001 ''0xother'')
          (run_events noDates initialState
             [Process ''0xtrader1'' (Num 700) (mockActivity 1000 ''0xsame-hash'')])) \<noteq> None
   \<and> resident noDates ''0xsame-hash''
        (run_events noDates initialState
           [Process ''0xtrader1'' (Num 700) (mockActivity 1000 ''0xsame-hash'')])
        [Process ''0xtrader2'' (Num 700) (mockActivity 1000 ''0xsame-hash''), Cleanup,
         Process ''0xtrader1'' (Num 701) (mockActivity 1000 ''0xsame-hash'')]
   \<and> kept noDates ''0xsame-hash''
        (run_events noDates initialState
           [Process ''0xtrader1'' (Num 700) (mockActivity 1000 ''0xsame-hash'')])
        [Process ''0xtrader2'' (Num 700) (mockActivity 1000 ''0xsame-hash''), Cleanup,
         Process ''0xtrader1'' (Num 701) (mockActivity 1000 ''0xsame-hash'')]
   \<and> length (calls_for ''0xsame-hash''
        (run_events noDates
           (run_events noDates initialState
              [Process ''0xtrader1'' (Num 700) (mockActivity 1000 ''0xsame-hash'')])
           [Process ''0xtrader2'' (Num 700) (mockActivity 1000 ''0xsame-hash''), Cleanup,
            Process ''0xtrader1'' (Num 701) (mockActivity 1000 ''0xsame-hash'')])) = 1"
  using hash_forwarded_at_most_once [of noDates "''0xtrader1''" "Num 700"
      "mockActivity 1001 ''0xother''"
      "run_events noDates initialState
         [Process ''0xtrader1'' (Num 700) (mockActivity 1000 ''0xsame-hash'')]"
      "''0xsame-hash''"
      "[Process ''0xtrader2'' (Num 700) (mockActivity 1000 ''0xsame-hash''), Cleanup,
        Process ''0xtrader1'' (Num 701) (mockActivity 1000 ''0xsame-hash'')]"]
  by (simp add: monitor_eval)

subsection \<open>The aggregation window\<close>

lemma old_activity_skipped:
  "js_lt (activityTimeOf g a) c \<Longrightarrow> processActivity g tr c a st = (None, st)"
  by (simp add: processActivity_def Let_def)

lemma processActivity_invoked:
  "processActivity g tr c a st = (r, st') \<Longrightarrow>
   (r = None \<and> st' = st) \<or>
   (r = Some (buildSignal g tr a) \<and> invoked st' = invoked st @ [(a, buildSignal g tr a)] \<and> \<not> js_lt (activityTimeOf g a) c)"
  using processActivity_cases [of g tr c a st] by auto

lemma processActivities_invoked:
  "processActivities g k tr c acts st = (r, st') \<Longrightarrow>
   \<exists>new. invoked st' = invoked st @ new \<and> (\<forall>x \<in> set new. \<not> js_lt (activityTimeOf g (fst x)) c)"
proof (induction acts arbitrary: st)
  case Nil
  then show ?case by simp
next
  case (Cons a acts)
  obtain r1 st1 where p: "processActivity g tr c a st = (r1, st1)"
    by (cases "processActivity g tr c a st")
  from processActivity_invoked [OF p] show ?case
  proof
    assume "r1 = None \<and> st1 = st"
    with Cons p show ?thesis by simp
  next
    assume f: "r1 = Some (buildSignal g tr a) \<and>
      invoked st1 = invoked st @ [(a, buildSignal g tr a)] \<and> \<not> js_lt (activityTimeOf g a) c"
    show ?thesis
    proof (cases "k (length (invoked st)) (buildSignal g tr a)")
      case None
      with Cons.prems p f have "processActivities g k tr c acts st1 = (r, st')" by simp
      from Cons.IH [OF this] obtain new where
        "invoked st' = invoked st1 @ new" "\<forall>x \<in> set new. \<not> js_lt (activityTimeOf g (fst x)) c"
        by blast
      with f show ?thesis by auto
    next
      case (Some e)
      with Cons.prems p f have "st' = st1" by simp
      with f show ?thesis by auto
    qed
  qed
qed

lemma fetch_new_calls:
  "\<forall>x \<in> set (newCalls st (fetchTraderActivities g k env dateNow tr fetched st)).
     \<not> js_lt (activityTimeOf g (fst x)) (cutoffOf env dateNow)"
proof (cases fetched)
  case (Inl e)
  then show ?thesis by (simp add: fetchTraderActivities_def newCalls_def)
next
  case (Inr acts)
  obtain r st' where p: "processActivities g k tr (cutoffOf env dateNow) acts st = (r, st')"
    by (cases "processActivities g k tr (cutoffOf env dateNow) acts st")
  from processActivities_invoked [OF p] obtain new where
    n: "invoked st' = invoked st @ new"
       "\<forall>x \<in> set new. \<not> js_lt (activityTimeOf g (fst x)) (cutoffOf env dateNow)"
    by blast
  have "invoked (fetchTraderActivities g k env dateNow tr fetched st) = invoked st'"
    using Inr p by (cases r) (simp_all add: fetchTraderActivities_def cutoffOf_def Let_def)
  with n show ?thesis by (simp add: newCalls_def)
qed

text \<open>
  C7. An activity whose normalized time is older than the cut-off is skipped by the loop
  body in every state, for every trader, with the state unchanged; and every call of the
  consumer that a run of \<^verbatim>\<open>fetchTraderActivities\<close> adds is for an activity that is not
  older than \<open>now - aggregationWindowSeconds\<close>.
\<close>

theorem old_activity_never_forwarded:
  "(js_lt (activityTimeOf getTime activity) cutoffTime \<longrightarrow>
      processActivity getTime trader cutoffTime activity st = (None, st))
   \<and> (\<forall>x \<in> set (newCalls st
          (fetchTraderActivities getTime onDetectedTrade env dateNow trader fetched st)).
        \<not> js_lt (activityTimeOf getTime (fst x)) (cutoffOf env dateNow))"
  using old_activity_skipped fetch_new_calls by blast


theorem old_activity_never_forwarded_witness:
  "js_lt (activityTimeOf noDates (mockActivity 600 ''0xtx-old'')) (Num 700)
   \<and> processActivity noDates ''0xtrader1'' (Num 700) (mockActivity 600 ''0xtx-old'') initialState
        = (None, initialState)
   \<and> map fst (newCalls initialState
        (fetchTraderActivities noDates alwaysResolves mockEnv 1000000 ''0xtrader1''
           (Inr [mockActivity 600 ''0xtx-old'', mockActivity 900 ''0xtx-new'']) initialState))
        = [mockActivity 900 ''0xtx-new'']
   \<and> cutoffOf mockEnv 1000000 = Num 700"
  using old_activity_never_forwarded [of noDates "mockActivity 600 ''0xtx-old''" "Num 700"
      "''0xtrader1''" initialState alwaysResolves mockEnv 1000000 "Inr []"]
  by (simp add: monitor_eval fetchTraderActivities_def newCalls_def cutoffOf_def mockEnv_def
      alwaysResolves_def)

subsection \<open>The cache clean-up\<close>

lemma hashOf_inj: "hashOf i = hashOf j \<Longrightarrow> i = j"
proof -
  assume "hashOf i = hashOf j"
  then have "length (hashOf i) = length (hashOf j)" by simp
  then show "i = j" by (simp add: hashOf_def)
qed

lemma distinct_hashes: "distinct (map hashOf [0..<n])"
  by (simp add: distinct_map inj_on_def) (use hashOf_inj in blast)

lemma fold_delete_take:
  "distinct hs \<Longrightarrow> fold set_delete (take n hs) hs = drop n hs"
proof -
  have gen: "distinct (pre @ hs) \<Longrightarrow> fold set_delete pre (pre @ hs) = hs" for pre hs :: "string list"
  proof (induction pre)
    case Nil
    then show ?case by simp
  next
    case (Cons x pre)
    then have "removeAll x (x # pre @ hs) = pre @ hs"
      by (simp add: removeAll_id)
    with Cons show ?case by (simp add: set_delete_def)
  qed
  assume "distinct hs"
  then have "distinct (take n hs @ drop n hs)" by simp
  from gen [OF this] show ?thesis by simp
qed

lemma fold_delete_distinct: "distinct hs \<Longrightarrow> distinct (fold set_delete ds hs)"
  by (induction ds arbitrary: hs) (simp_all add: set_delete_def distinct_removeAll)

lemma apply_event_distinct:
  "distinct (processedHashes st) \<Longrightarrow> distinct (processedHashes (apply_event g st ev))"
proof (cases ev)
  case (Process tr c a)
  assume "distinct (processedHashes st)"
  then show ?thesis using processActivity_cases [of g tr c a st] Process by auto
next
  case Cleanup
  assume "distinct (processedHashes st)"
  then show ?thesis using Cleanup
    by (simp add: cleanupHashCache_def Let_def fold_delete_distinct)
qed

lemma run_events_distinct:
  "distinct (processedHashes st) \<Longrightarrow> distinct (processedHashes (run_events g st evs))"
proof (induction evs arbitrary: st)
  case Nil
  then show ?case by (simp add: run_events_def)
next
  case (Cons ev evs)
  from Cons.IH [OF apply_event_distinct [OF Cons.prems, of g ev]]
  show ?case by (simp add: run_events_def)
qed

lemma cleanup_drop:
  "distinct (processedHashes st) \<Longrightarrow> length (processedHashes st) > MAX_HASH_CACHE_SIZE \<Longrightarrow>
   processedHashes (cleanupHashCache st) = drop CLEANUP_BATCH_SIZE (processedHashes st)"
  by (simp add: cleanupHashCache_def Let_def fold_delete_take)

text \<open>
  C2, as amended. The cache holds no hash twice (it is a \<^verbatim>\<open>Set\<close>; every schedule keeps it
  so). On a cache of more than \<open>MAX_HASH_CACHE_SIZE\<close> entries the clean-up
  removes exactly the \<open>CLEANUP_BATCH_SIZE\<close> oldest ones, in one batch, and is the identity
  on a smaller cache; so the cache is within \<open>MAX_HASH_CACHE_SIZE\<close> after the clean-up
  whenever it held at most \<open>MAX_HASH_CACHE_SIZE + CLEANUP_BATCH_SIZE\<close> entries before.
\<close>

theorem cleanup_evicts_one_batch:
  "distinct (processedHashes st) \<Longrightarrow>
   (length (processedHashes st) > MAX_HASH_CACHE_SIZE \<longrightarrow>
      processedHashes (cleanupHashCache st) = drop CLEANUP_BATCH_SIZE (processedHashes st)
      \<and> length (processedHashes (cleanupHashCache st))
          = length (processedHashes st) - CLEANUP_BATCH_SIZE)
   \<and> (length (processedHashes st) \<le> MAX_HASH_CACHE_SIZE \<longrightarrow> cleanupHashCache st = st)
   \<and> (length (processedHashes st) \<le> MAX_HASH_CACHE_SIZE + CLEANUP_BATCH_SIZE \<longrightarrow>
        length (processedHashes (cleanupHashCache st)) \<le> MAX_HASH_CACHE_SIZE)"
proof (intro conjI impI)
  assume d: "distinct (processedHashes st)"
  {
    assume big: "length (processedHashes st) > MAX_HASH_CACHE_SIZE"
    from cleanup_drop [OF d big]
    show "processedHashes (cleanupHashCache st) = drop CLEANUP_BATCH_SIZE (processedHashes st)" .
    then show "length (processedHashes (cleanupHashCache st))
          = length (processedHashes st) - CLEANUP_BATCH_SIZE" by simp
  }
  {
    assume "length (processedHashes st) \<le> MAX_HASH_CACHE_SIZE"
    then show "cleanupHashCache st = st" by (simp add: cleanupHashCache_def)
  }
  {
    assume le: "length (processedHashes st) \<le> MAX_HASH_CACHE_SIZE + CLEANUP_BATCH_SIZE"
    show "length (processedHashes (cleanupHashCache st)) \<le> MAX_HASH_CACHE_SIZE"
    proof (cases "length (processedHashes st) > MAX_HASH_CACHE_SIZE")
      case True
      from cleanup_drop [OF d True] le show ?thesis by simp
    next
      case False
      then show ?thesis by (simp add: cleanupHashCache_def)
    qed
  }
qed



theorem cleanup_evicts_one_batch_witness:
  "distinct (processedHashes (initialState\<lparr>processedHashes := map hashOf [0..<10001]\<rparr>))
   \<and> length (processedHashes (initialState\<lparr>processedHashes := map hashOf [0..<10001]\<rparr>))
        > MAX_HASH_CACHE_SIZE
   \<and> processedHashes (cleanupHashCache (initialState\<lparr>processedHashes := map hashOf [0..<10001]\<rparr>))
        = drop 5000 (map hashOf [0..<10001])
   \<and> length (processedHashes
        (cleanupHashCache (initialState\<lparr>processedHashes := map hashOf [0..<10001]\<rparr>))) = 5001"
proof -
  let ?st = "initialState\<lparr>processedHashes := map hashOf [0..<10001]\<rparr>"
  have p: "processedHashes ?st = map hashOf [0..<10001]" by simp
  have d: "distinct (processedHashes ?st)" unfolding p by (rule distinct_hashes)
  have l: "length (processedHashes ?st) = 10001" unfolding p by simp
  then have big: "length (processedHashes ?st) > MAX_HASH_CACHE_SIZE"
    by (simp add: MAX_HASH_CACHE_SIZE_def)
  from cleanup_evicts_one_batch [OF d] big
  have e: "processedHashes (cleanupHashCache ?st) = drop CLEANUP_BATCH_SIZE (processedHashes ?st)"
    and n: "length (processedHashes (cleanupHashCache ?st))
          = length (processedHashes ?st) - CLEANUP_BATCH_SIZE"
    by blast+
  from e have e': "processedHashes (cleanupHashCache ?st) = drop 5000 (map hashOf [0..<10001])"
    unfolding p by (simp only: CLEANUP_BATCH_SIZE_def)
  from n l have n': "length (processedHashes (cleanupHashCache ?st)) = 5001"
    by (simp add: CLEANUP_BATCH_SIZE_def)
  from d big e' n' show ?thesis by blast
qed

lemma hashOf_fresh: "hashOf m \<notin> set (map hashOf [0..<m])"
proof
  assume "hashOf m \<in> set (map hashOf [0..<m])"
  then obtain x where "x < m" "hashOf m = hashOf x" by auto
  then show False using hashOf_inj [of m x] by simp
qed

lemma freshTrade_step:
  assumes "processedHashes st = map hashOf [0..<m]" and "lastTimeOf st tr = Num (of_nat m)"
    and "js_le c (Num 1)"
  shows "processActivity g tr c (freshTrade m) st =
     (Some (buildSignal g tr (freshTrade m)),
      st\<lparr>processedHashes := map hashOf [0..<Suc m],
         lastFetchTime := (lastFetchTime st)(tr \<mapsto> Num (of_nat (Suc m))),
         invoked := invoked st @ [(freshTrade m, buildSignal g tr (freshTrade m))]\<rparr>)"
proof -
  have nlt: "\<not> js_lt (Num (1 + real m)) c"
    using assms(3) by (cases c) auto
  show ?thesis
    using assms(1,2) hashOf_fresh [of m] nlt
    by (simp add: processActivity_def freshTrade_def mockActivity_def activityTimeOf_def
        Let_def set_add_def js_max_def)
qed

lemma fresh_feed_cache:
  "processedHashes st = map hashOf [0..<m] \<Longrightarrow> lastTimeOf st tr = Num (of_nat m) \<Longrightarrow>
   js_le c (Num 1) \<Longrightarrow> m \<le> n \<Longrightarrow>
   processedHashes (snd (processActivities g alwaysResolves tr c (map freshTrade [m..<n]) st))
     = map hashOf [0..<n]
   \<and> fst (processActivities g alwaysResolves tr c (map freshTrade [m..<n]) st) = None"
proof (induction "n - m" arbitrary: m st)
  case 0
  then show ?case by simp
next
  case (Suc d)
  then have lt: "m < n" by simp
  let ?st' = "st\<lparr>processedHashes := map hashOf [0..<Suc m],
         lastFetchTime := (lastFetchTime st)(tr \<mapsto> Num (of_nat (Suc m))),
         invoked := invoked st @ [(freshTrade m, buildSignal g tr (freshTrade m))]\<rparr>"
  have step: "processActivity g tr c (freshTrade m) st = (Some (buildSignal g tr (freshTrade m)), ?st')"
    using Suc.prems by (intro freshTrade_step) auto
  have lt': "lastTimeOf ?st' tr = Num (of_nat (Suc m))"
    by (simp add: lastTimeOf_def js_or_def)
  have "d = n - Suc m" using Suc.hyps(2) by simp
  from Suc.hyps(1) [OF this, of ?st'] lt' Suc.prems(3) lt
  have ih: "processedHashes (snd (processActivities g alwaysResolves tr c (map freshTrade [Suc m..<n]) ?st'))
     = map hashOf [0..<n]
   \<and> fst (processActivities g alwaysResolves tr c (map freshTrade [Suc m..<n]) ?st') = None"
    by simp
  have "[m..<n] = m # [Suc m..<n]" using lt by (simp add: upt_conv_Cons)
  then show ?case using step ih by (simp add: alwaysResolves_def)
qed

lemma fetch_fresh_feed:
  "processedHashes (fetchTraderActivities g alwaysResolves mockEnv 0 tr
      (Inr (map freshTrade [0..<n])) initialState) = map hashOf [0..<n]"
proof -
  let ?c = "Num (of_int (0 div 1000) - aggregationWindowSeconds mockEnv)"
  have c: "js_le ?c (Num 1)" by (simp add: mockEnv_def)
  have "processedHashes initialState = map hashOf [0..<0]" "lastTimeOf initialState tr = Num (of_nat 0)"
    by (simp_all add: initialState_def lastTimeOf_def)
  from fresh_feed_cache [OF this c, of n g]
  show ?thesis
    by (cases "processActivities g alwaysResolves tr ?c (map freshTrade [0..<n]) initialState")
       (simp add: fetchTraderActivities_def Let_def)
qed

text \<open>
  C2 as stated fails: a tick in which one trader's feed brings 15001 new trades fills the
  empty cache with 15001 hashes, and the clean-up at its end leaves 10001, more than
  \<open>MAX_HASH_CACHE_SIZE\<close>.
\<close>

theorem cleanup_leaves_cache_above_max:
  "length (processedHashes
      (tick noDates alwaysResolves mockEnv
         [(''0xtrader1'', 0, Inr (map freshTrade [0..<15001]))] initialState)) = 10001
   \<and> 10001 > MAX_HASH_CACHE_SIZE"
proof -
  let ?st = "fetchTraderActivities noDates alwaysResolves mockEnv 0 ''0xtrader1''
         (Inr (map freshTrade [0..<15001])) initialState"
  have t: "tick noDates alwaysResolves mockEnv
         [(''0xtrader1'', 0, Inr (map freshTrade [0..<15001]))] initialState
       = cleanupHashCache ?st"
    by (simp add: tick_def)
  have c: "processedHashes ?st = map hashOf [0..<15001]" by (rule fetch_fresh_feed)
  then have "distinct (processedHashes ?st)" by (simp add: distinct_hashes)
  moreover have "length (processedHashes ?st) > MAX_HASH_CACHE_SIZE"
    using c by (simp add: MAX_HASH_CACHE_SIZE_def)
  ultimately have "processedHashes (cleanupHashCache ?st) = drop CLEANUP_BATCH_SIZE (processedHashes ?st)"
    by (rule cleanup_drop)
  with c show ?thesis unfolding t by (simp add: CLEANUP_BATCH_SIZE_def MAX_HASH_CACHE_SIZE_def)
qed

subsection \<open>A consumer that throws\<close>

lemma processActivities_append:
  "processActivities g k tr c (pre @ rest) st =
     (case processActivities g k tr c pre st of
        (None, st') \<Rightarrow> processActivities g k tr c rest st'
      | (Some e, st') \<Rightarrow> (Some e, st'))"
proof (induction pre arbitrary: st)
  case Nil
  then show ?case by simp
next
  case (Cons a pre)
  show ?case
    by (cases "processActivity g tr c a st") (auto simp: Cons split: option.splits)
qed

lemma lastTimeOf_not_NaN: "lastTimeOf st tr \<noteq> NaN"
  by (cases "lastFetchTime st tr"; cases "the (lastFetchTime st tr)")
     (auto simp: lastTimeOf_def js_or_def)

lemma js_max_forward:
  "lt \<noteq> NaN \<Longrightarrow> \<not> js_le t lt \<Longrightarrow> js_max lt t = t"
  by (cases lt; cases t) (auto simp: js_max_def)

lemma js_or_zero_le:
  "t \<noteq> NaN \<Longrightarrow> js_le a t \<Longrightarrow> js_le a (js_or t (Num 0))"
  by (cases t; cases a) (auto simp: js_or_def)

lemma js_le_trans_forward:
  "js_le a lt \<Longrightarrow> \<not> js_le t lt \<Longrightarrow> t \<noteq> NaN \<Longrightarrow> js_le a t"
  by (cases a; cases lt; cases t) auto

lemma js_le_refl: "t \<noteq> NaN \<Longrightarrow> js_le t t"
  by (cases t) auto

lemma forwarded_state:
  assumes "processActivity g tr c a st = (Some sg, st')"
  shows "transactionHash a \<in> set (processedHashes st')"
    and "lastFetchTime st' tr = Some (activityTimeOf g a)"
    and "sg = buildSignal g tr a"
    and "invoked st' = invoked st @ [(a, sg)]"
    and "errorLog st' = errorLog st"
  using processActivity_cases [of g tr c a st] assms lastTimeOf_not_NaN [of st tr]
  by (auto simp: js_max_forward)

lemma watermark_step:
  assumes inv: "js_le t (lastTimeOf st tr)" and ok: "timed_event g ev"
  shows "js_le t (lastTimeOf (apply_event g st ev) tr)"
proof (cases ev)
  case Cleanup
  then show ?thesis using inv by (simp add: cleanupHashCache_def lastTimeOf_def Let_def)
next
  case (Process tr' c b)
  from processActivity_cases [of g tr' c b st] show ?thesis
  proof
    assume "processActivity g tr' c b st = (None, st)"
    with Process inv show ?thesis by simp
  next
    assume f: "transactionHash b \<notin> set (processedHashes st) \<and> atype b = ''TRADE'' \<and>
      \<not> js_lt (activityTimeOf g b) c \<and> \<not> js_le (activityTimeOf g b) (lastTimeOf st tr') \<and>
      processActivity g tr' c b st =
        (Some (buildSignal g tr' b),
         st\<lparr>processedHashes := processedHashes st @ [transactionHash b],
            lastFetchTime := (lastFetchTime st)(tr' \<mapsto> js_max (lastTimeOf st tr') (activityTimeOf g b)),
            invoked := invoked st @ [(b, buildSignal g tr' b)]\<rparr>)"
    show ?thesis
    proof (cases "tr' = tr")
      case False
      with f Process inv show ?thesis by (simp add: lastTimeOf_def)
    next
      case True
      have nn: "activityTimeOf g b \<noteq> NaN" using ok Process by simp
      have m: "js_max (lastTimeOf st tr) (activityTimeOf g b) = activityTimeOf g b"
        using f True lastTimeOf_not_NaN [of st tr] by (simp add: js_max_forward)
      have le: "js_le t (activityTimeOf g b)"
        using inv f True nn by (auto intro: js_le_trans_forward)
      have "lastTimeOf (apply_event g st ev) tr = js_or (activityTimeOf g b) (Num 0)"
        using f True Process m by (simp add: lastTimeOf_def)
      with le nn show ?thesis by (simp add: js_or_zero_le)
    qed
  qed
qed

lemma watermark_blocks:
  assumes inv: "js_le (activityTimeOf g a) (lastTimeOf st tr)"
  shows "calls_of tr a (apply_event g st ev) = calls_of tr a st"
proof (cases ev)
  case Cleanup
  then show ?thesis by (simp add: cleanupHashCache_def calls_of_def Let_def)
next
  case (Process tr' c b)
  show ?thesis
    using processActivity_cases [of g tr' c b st] Process inv
    by (auto simp: calls_of_def buildSignal_def)
qed

lemma watermark_never_again:
  "js_le (activityTimeOf g a) (lastTimeOf st tr) \<Longrightarrow> timed g evs \<Longrightarrow>
   calls_of tr a (run_events g st evs) = calls_of tr a st"
proof (induction evs arbitrary: st)
  case Nil
  then show ?case by (simp add: run_events_def)
next
  case (Cons ev evs)
  from Cons.prems have ok: "timed_event g ev" and rest: "timed g evs"
    by (simp_all add: timed_def)
  have "js_le (activityTimeOf g a) (lastTimeOf (apply_event g st ev) tr)"
    using Cons.prems(1) ok by (rule watermark_step)
  from Cons.IH [OF this rest] watermark_blocks [OF Cons.prems(1), of ev]
  show ?case by (simp add: run_events_def)
qed

lemma fetch_consumer_throws:
  assumes pre: "processActivities g k tr (cutoffOf env dateNow) pre st0 = (None, st)"
    and fwd: "processActivity g tr (cutoffOf env dateNow) a st = (Some sg, st')"
    and thr: "k (length (invoked st)) sg = Some e"
  shows "fetchTraderActivities g k env dateNow tr (Inr (pre @ a # rest)) st0
           = st'\<lparr>errorLog := errorLog st' @ [(tr, e)]\<rparr>"
proof -
  have "processActivities g k tr (cutoffOf env dateNow) (a # rest) st = (Some e, st')"
    using fwd thr by simp
  then have "processActivities g k tr (cutoffOf env dateNow) (pre @ a # rest) st0 = (Some e, st')"
    using pre by (simp add: processActivities_append)
  then show ?thesis by (simp add: fetchTraderActivities_def cutoffOf_def Let_def)
qed

text \<open>
  C10, as amended. Let the consumer reject while the trader's task handles an activity of
  its fetched list. Then \<^verbatim>\<open>fetchTraderActivities\<close> ends there, the error logged and nothing
  thrown: its state is the one the loop body left, with the hash of the activity in the
  cache, the trader's watermark at the activity's time and the call of the consumer made,
  whatever the rest of the list holds. From then on, the consumer is not called again for
  this activity of this trader along any schedule in which every activity has a time (no
  \<^verbatim>\<open>timestamp\<close> that normalizes to \<^verbatim>\<open>NaN\<close>), the rejected one included; and along any
  schedule at all it is not called for the activity's hash while the hash stays in the cache.
\<close>

theorem consumer_failure_loses_activity:
  assumes "processActivities getTime onDetectedTrade trader (cutoffOf env dateNow) before st0 = (None, st)"
    and "processActivity getTime trader (cutoffOf env dateNow) activity st = (Some signal, st')"
    and "onDetectedTrade (length (invoked st)) signal = Some e"
  shows "fetchTraderActivities getTime onDetectedTrade env dateNow trader
            (Inr (before @ activity # rest)) st0
           = st'\<lparr>errorLog := errorLog st' @ [(trader, e)]\<rparr>
     \<and> transactionHash activity \<in> set (processedHashes st')
     \<and> lastFetchTime st' trader = Some (activityTimeOf getTime activity)
     \<and> invoked st' = invoked st @ [(activity, signal)]
     \<and> (activityTimeOf getTime activity \<noteq> NaN \<and> timed getTime evs \<longrightarrow>
          calls_of trader activity
            (run_events getTime (st'\<lparr>errorLog := errorLog st' @ [(trader, e)]\<rparr>) evs)
          = calls_of trader activity st')
     \<and> (resident getTime (transactionHash activity)
           (st'\<lparr>errorLog := errorLog st' @ [(trader, e)]\<rparr>) evs \<longrightarrow>
          calls_for (transactionHash activity)
            (run_events getTime (st'\<lparr>errorLog := errorLog st' @ [(trader, e)]\<rparr>) evs)
          = calls_for (transactionHash activity) st')"
proof -
  let ?st'' = "st'\<lparr>errorLog := errorLog st' @ [(trader, e)]\<rparr>"
  note f = forwarded_state [OF assms(2)]
  have w: "activityTimeOf getTime activity \<noteq> NaN \<Longrightarrow>
      js_le (activityTimeOf getTime activity) (lastTimeOf ?st'' trader)"
    using f(2) by (simp add: lastTimeOf_def js_or_zero_le js_le_refl)
  have c: "calls_of trader activity ?st'' = calls_of trader activity st'"
    by (simp add: calls_of_def)
  have r: "calls_for (transactionHash activity) ?st'' = calls_for (transactionHash activity) st'"
    by (simp add: calls_for_def)
  show ?thesis
    using fetch_consumer_throws [OF assms] f(1,2,4) watermark_never_again [OF w, of evs] c
      resident_no_calls [of getTime "transactionHash activity" ?st'' evs] r
    by simp
qed


theorem consumer_failure_loses_activity_witness:
  "processActivities noDates failsOnce ''0xtrader1'' (cutoffOf mockEnv 1000000) [] initialState
     = (None, initialState)
   \<and> fst (processActivity noDates ''0xtrader1'' (cutoffOf mockEnv 1000000)
          (mockActivity 1000 ''0xtx123'') initialState)
       = Some (buildSignal noDates ''0xtrader1'' (mockActivity 1000 ''0xtx123''))
   \<and> failsOnce (length (invoked initialState))
         (buildSignal noDates ''0xtrader1'' (mockActivity 1000 ''0xtx123''))
       = Some (Failure ''Execution error'')
   \<and> errorLog (fetchTraderActivities noDates failsOnce mockEnv 1000000 ''0xtrader1''
         (Inr ([] @ mockActivity 1000 ''0xtx123'' # [mockActivity 1001 ''0xtx124'']))
         initialState)
       = [(''0xtrader1'', Failure ''Execution error'')]
   \<and> map fst (invoked (fetchTraderActivities noDates failsOnce mockEnv 1000000 ''0xtrader1''
         (Inr ([] @ mockActivity 1000 ''0xtx123'' # [mockActivity 1001 ''0xtx124'']))
         initialState))
       = [mockActivity 1000 ''0xtx123'']
   \<and> timed noDates [Cleanup,
         Process ''0xtrader1'' (cutoffOf mockEnv 1001000) (mockActivity 1000 ''0xtx123'')]
   \<and> map fst (calls_of ''0xtrader1'' (mockActivity 1000 ''0xtx123'')
         (run_events noDates
            (fetchTraderActivities noDates failsOnce mockEnv 1000000 ''0xtrader1''
               (Inr ([] @ mockActivity 1000 ''0xtx123'' # [mockActivity 1001 ''0xtx124'']))
               initialState)
            [Cleanup,
             Process ''0xtrader1'' (cutoffOf mockEnv 1001000) (mockActivity 1000 ''0xtx123'')]))
       = [mockActivity 1000 ''0xtx123'']"
proof -
  let ?a = "mockActivity 1000 ''0xtx123''"
  let ?c = "cutoffOf mockEnv 1000000"
  let ?p = "processActivity noDates ''0xtrader1'' ?c ?a initialState"
  let ?evs = "[Cleanup, Process ''0xtrader1'' (cutoffOf mockEnv 1001000) ?a]"
  let ?fetch = "fetchTraderActivities noDates failsOnce mockEnv 1000000 ''0xtrader1''
         (Inr ([] @ ?a # [mockActivity 1001 ''0xtx124''])) initialState"
  let ?st'' = "(snd ?p)\<lparr>errorLog := errorLog (snd ?p) @ [(''0xtrader1'', Failure ''Execution error'')]\<rparr>"
  have h1: "processActivities noDates failsOnce ''0xtrader1'' ?c [] initialState
     = (None, initialState)" by simp
  have c2: "fst ?p = Some (buildSignal noDates ''0xtrader1'' ?a)"
    by (simp add: monitor_eval cutoffOf_def mockEnv_def)
  then have h2: "?p = (Some (buildSignal noDates ''0xtrader1'' ?a), snd ?p)"
    by (metis prod.collapse)
  have h3: "failsOnce (length (invoked initialState)) (buildSignal noDates ''0xtrader1'' ?a)
       = Some (Failure ''Execution error'')"
    by (simp add: failsOnce_def initialState_def)
  have t: "timed noDates ?evs"
    by (simp add: timed_def activityTimeOf_def mockActivity_def)
  have n: "activityTimeOf noDates ?a \<noteq> NaN"
    by (simp add: activityTimeOf_def mockActivity_def)
  have s: "errorLog (snd ?p) = []" "map fst (invoked (snd ?p)) = [?a]"
      "map fst (calls_of ''0xtrader1'' ?a (snd ?p)) = [?a]"
    by (simp_all add: monitor_eval cutoffOf_def mockEnv_def calls_of_def)
  note T = consumer_failure_loses_activity [OF h1 h2 h3,
      of "[mockActivity 1001 ''0xtx124'']" ?evs]
  from T have F: "?fetch = ?st''" by (rule conjunct1)
  from T t n have N: "calls_of ''0xtrader1'' ?a (run_events noDates ?st'' ?evs)
      = calls_of ''0xtrader1'' ?a (snd ?p)" by blast
  have c4: "errorLog ?fetch = [(''0xtrader1'', Failure ''Execution error'')]"
    unfolding F using s(1) by simp
  have c5: "map fst (invoked ?fetch) = [?a]"
    unfolding F using s(2) by simp
  have c7: "map fst (calls_of ''0xtrader1'' ?a (run_events noDates ?fetch ?evs)) = [?a]"
    unfolding F N by (rule s(3))
  show ?thesis by (intro conjI h1 c2 h3 c4 c5 t c7)
qed

lemma fresh_feed_run:
  assumes "\<forall>i. m \<le> i \<and> i < n \<longrightarrow> hashOf i \<notin> set (processedHashes st)"
    and "lastTimeOf st tr = Num w" and "w \<le> real m" and "js_le c (Num 1)"
    and "\<forall>j sg. length (invoked st) \<le> j \<longrightarrow> k j sg = None"
  shows "\<exists>st'. processActivities g k tr c (map freshTrade [m..<n]) st = (None, st')
     \<and> processedHashes st' = processedHashes st @ map hashOf [m..<n]
     \<and> (\<forall>t. t \<noteq> tr \<longrightarrow> lastFetchTime st' t = lastFetchTime st t)
     \<and> errorLog st' = errorLog st
     \<and> invoked st' = invoked st
          @ map (\<lambda>i. (freshTrade i, buildSignal g tr (freshTrade i))) [m..<n]"
  using assms
proof (induction "n - m" arbitrary: m st w)
  case 0
  then show ?case by simp
next
  case (Suc d)
  then have lt: "m < n" by simp
  let ?sg = "buildSignal g tr (freshTrade m)"
  let ?st1 = "st\<lparr>processedHashes := processedHashes st @ [hashOf m],
         lastFetchTime := (lastFetchTime st)(tr \<mapsto> Num (real (Suc m))),
         invoked := invoked st @ [(freshTrade m, ?sg)]\<rparr>"
  have fresh: "hashOf m \<notin> set (processedHashes st)" using Suc.prems(1) lt by simp
  have nlt: "\<not> js_lt (Num (1 + real m)) c"
    using Suc.prems(4) by (cases c) auto
  have nle: "\<not> 1 + real m \<le> w" using Suc.prems(3) by simp
  have step: "processActivity g tr c (freshTrade m) st = (Some ?sg, ?st1)"
    using fresh nlt nle Suc.prems(2)
    by (simp add: processActivity_def freshTrade_def mockActivity_def activityTimeOf_def
        Let_def set_add_def js_max_def)
  have k0: "k (length (invoked st)) ?sg = None" using Suc.prems(5) by simp
  have h1: "\<forall>i. Suc m \<le> i \<and> i < n \<longrightarrow> hashOf i \<notin> set (processedHashes ?st1)"
  proof (intro allI impI)
    fix i assume i: "Suc m \<le> i \<and> i < n"
    then have "hashOf i \<notin> set (processedHashes st)" using Suc.prems(1) by simp
    moreover have "hashOf i \<noteq> hashOf m" using i hashOf_inj [of i m] by auto
    ultimately show "hashOf i \<notin> set (processedHashes ?st1)" by simp
  qed
  have h2: "lastTimeOf ?st1 tr = Num (real (Suc m))"
    by (simp add: lastTimeOf_def js_or_def)
  have h5: "\<forall>j sg. length (invoked ?st1) \<le> j \<longrightarrow> k j sg = None"
    using Suc.prems(5) by simp
  have d: "d = n - Suc m" using Suc.hyps(2) by simp
  from Suc.hyps(1) [OF d h1 h2 _ Suc.prems(4) h5]
  obtain st' where r: "processActivities g k tr c (map freshTrade [Suc m..<n]) ?st1 = (None, st')"
    and c: "processedHashes st' = processedHashes ?st1 @ map hashOf [Suc m..<n]"
    and w: "\<forall>t. t \<noteq> tr \<longrightarrow> lastFetchTime st' t = lastFetchTime ?st1 t"
    and e: "errorLog st' = errorLog ?st1"
    and i: "invoked st' = invoked ?st1
          @ map (\<lambda>i. (freshTrade i, buildSignal g tr (freshTrade i))) [Suc m..<n]"
    by auto
  have u: "[m..<n] = m # [Suc m..<n]" using lt by (simp add: upt_conv_Cons)
  have "processActivities g k tr c (map freshTrade [m..<n]) st = (None, st')"
    unfolding u using step k0 r by simp
  moreover have "processedHashes st' = processedHashes st @ map hashOf [m..<n]"
    unfolding u using c by simp
  moreover have "\<forall>t. t \<noteq> tr \<longrightarrow> lastFetchTime st' t = lastFetchTime st t"
    using w by simp
  moreover have "errorLog st' = errorLog st" using e by simp
  moreover have "invoked st' = invoked st
          @ map (\<lambda>i. (freshTrade i, buildSignal g tr (freshTrade i))) [m..<n]"
    unfolding u using i by simp
  ultimately show ?case by blast
qed

lemma afterFailure_eq:
  "afterFailure =
     \<lparr>processedHashes = [hashOf 0], lastFetchTime = [''0xtrader1'' \<mapsto> Num 1],
      invoked = [(freshTrade 0, buildSignal noDates ''0xtrader1'' (freshTrade 0))],
      errorLog = [(''0xtrader1'', Failure ''Execution error'')]\<rparr>"
  by (simp add: afterFailure_def tick_def fetchTraderActivities_def failsOnce_def mockEnv_def
      freshTrade_def hashOf_def monitor_eval)

text \<open>The second tick before its clean-up: the undated trade, then the other feed.\<close>

lemma undated_forwarded:
  "fetchTraderActivities noDates failsOnce mockEnv 0 ''0xtrader1'' (Inr [undatedTrade]) afterFailure =
     \<lparr>processedHashes = [hashOf 0, ''undated''], lastFetchTime = [''0xtrader1'' \<mapsto> NaN],
      invoked = [(freshTrade 0, buildSignal noDates ''0xtrader1'' (freshTrade 0)),
                 (undatedTrade, buildSignal noDates ''0xtrader1'' undatedTrade)],
      errorLog = [(''0xtrader1'', Failure ''Execution error'')]\<rparr>"
  by (simp add: afterFailure_eq fetchTraderActivities_def failsOnce_def mockEnv_def
      undatedTrade_def hashOf_def processActivity_def activityTimeOf_def lastTimeOf_def
      set_add_def js_or_def js_max_def noDates_def mockActivity_def Let_def)

lemma undated_not_fresh: "''undated'' \<noteq> hashOf i"
  by (simp add: hashOf_def)

lemma afterEviction_facts:
  "hashOf 0 \<notin> set (processedHashes afterEviction)"
  "lastFetchTime afterEviction ''0xtrader1'' = Some NaN"
  "calls_of ''0xtrader1'' (freshTrade 0) afterEviction
     = [(freshTrade 0, buildSignal noDates ''0xtrader1'' (freshTrade 0))]"
  "length (invoked afterEviction) = 10001"
proof -
  let ?s1 = "fetchTraderActivities noDates failsOnce mockEnv 0 ''0xtrader1''
               (Inr [undatedTrade]) afterFailure"
  let ?c = "Num (of_int (0 div 1000) - aggregationWindowSeconds mockEnv)"
  have p1: "processedHashes ?s1 = [hashOf 0, ''undated'']"
    and w1: "lastFetchTime ?s1 = [''0xtrader1'' \<mapsto> NaN]"
    and i1: "invoked ?s1 = [(freshTrade 0, buildSignal noDates ''0xtrader1'' (freshTrade 0)),
                 (undatedTrade, buildSignal noDates ''0xtrader1'' undatedTrade)]"
    by (simp_all add: undated_forwarded)
  have a1: "\<forall>i. 1 \<le> i \<and> i < 10000 \<longrightarrow> hashOf i \<notin> set (processedHashes ?s1)"
  proof (intro allI impI)
    fix i :: nat assume "1 \<le> i \<and> i < 10000"
    then have "hashOf i \<noteq> hashOf 0" using hashOf_inj [of i 0] by auto
    moreover have "hashOf i \<noteq> ''undated''" using undated_not_fresh [of i] by simp
    ultimately show "hashOf i \<notin> set (processedHashes ?s1)" unfolding p1 by simp
  qed
  have a2: "lastTimeOf ?s1 ''0xtrader2'' = Num 0"
    by (simp add: lastTimeOf_def w1)
  have a3: "(0::real) \<le> real (1::nat)" by simp
  have a4: "js_le ?c (Num 1)" by (simp add: mockEnv_def)
  have a5: "\<forall>j sg. length (invoked ?s1) \<le> j \<longrightarrow> failsOnce j sg = None"
    unfolding i1 by (simp add: failsOnce_def)
  from fresh_feed_run [OF a1 a2 a3 a4 a5, of noDates]
  obtain s2 where r: "processActivities noDates failsOnce ''0xtrader2'' ?c
                        (map freshTrade [1..<10000]) ?s1 = (None, s2)"
    and p2: "processedHashes s2 = processedHashes ?s1 @ map hashOf [1..<10000]"
    and w2: "\<forall>t. t \<noteq> ''0xtrader2'' \<longrightarrow> lastFetchTime s2 t = lastFetchTime ?s1 t"
    and i2: "invoked s2 = invoked ?s1
          @ map (\<lambda>i. (freshTrade i, buildSignal noDates ''0xtrader2'' (freshTrade i))) [1..<10000]"
    by auto
  have f: "fetchTraderActivities noDates failsOnce mockEnv 0 ''0xtrader2''
             (Inr (map freshTrade [1..<10000])) ?s1 = s2"
    using r by (simp add: fetchTraderActivities_def Let_def)
  have ev: "afterEviction = cleanupHashCache s2"
    unfolding afterEviction_def tick_def using f by simp
  have cache: "processedHashes s2 = hashOf 0 # ''undated'' # map hashOf [1..<10000]"
    unfolding p2 p1 by simp
  have nin: "hashOf 0 \<notin> set (map hashOf [1..<10000])"
  proof
    assume "hashOf 0 \<in> set (map hashOf [1..<10000])"
    then obtain x where "1 \<le> x" "hashOf 0 = hashOf x" by auto
    then show False using hashOf_inj [of 0 x] by simp
  qed
  have dm: "distinct (map hashOf [1..<10000])"
    by (simp add: distinct_map inj_on_def) (use hashOf_inj in blast)
  have nu: "''undated'' \<notin> set (map hashOf [1..<10000])" "hashOf 0 \<noteq> ''undated''"
    using undated_not_fresh by (auto simp: hashOf_def)
  have d: "distinct (processedHashes s2)"
    unfolding cache using nin dm nu by simp
  have big: "length (processedHashes s2) > MAX_HASH_CACHE_SIZE"
    unfolding cache by (simp add: MAX_HASH_CACHE_SIZE_def)
  from cleanup_drop [OF d big]
  have "processedHashes afterEviction = drop CLEANUP_BATCH_SIZE (processedHashes s2)"
    unfolding ev .
  also have "\<dots> = drop 4998 (map hashOf [1..<10000])"
    unfolding cache by (simp add: CLEANUP_BATCH_SIZE_def)
  finally have "set (processedHashes afterEviction) \<subseteq> set (map hashOf [1..<10000])"
    by (simp only: set_drop_subset)
  with nin show "hashOf 0 \<notin> set (processedHashes afterEviction)" by blast
  have o: "lastFetchTime afterEviction = lastFetchTime s2" "invoked afterEviction = invoked s2"
    unfolding ev by (simp_all add: cleanupHashCache_def Let_def)
  show "lastFetchTime afterEviction ''0xtrader1'' = Some NaN"
    using w2 w1 o(1) by simp
  have other: "filter (\<lambda>c. fst c = freshTrade 0 \<and> sig_trader (snd c) = ''0xtrader1'')
        (map (\<lambda>i. (freshTrade i, buildSignal noDates ''0xtrader2'' (freshTrade i))) [1..<10000]) = []"
    by (simp add: filter_empty_conv buildSignal_def)
  have und: "undatedTrade \<noteq> freshTrade 0"
    by (simp add: undatedTrade_def freshTrade_def mockActivity_def)
  show "calls_of ''0xtrader1'' (freshTrade 0) afterEviction
     = [(freshTrade 0, buildSignal noDates ''0xtrader1'' (freshTrade 0))]"
    unfolding calls_of_def o(2) i2 i1 filter_append other using und
    by (simp add: buildSignal_def)
  show "length (invoked afterEviction) = 10001"
    unfolding o(2) i2 i1 by simp
qed

text \<open>
  C10 as stated fails. The consumer rejects the trade \<open>freshTrade 0\<close> of trader 1, whose hash
  is then in the cache and whose time is the trader's watermark. In the next tick the feed
  of trader 1 brings a trade whose \<^verbatim>\<open>timestamp\<close> is no date: its time is \<^verbatim>\<open>NaN\<close>, it passes
  the two comparisons, and \<^verbatim>\<open>Math.max\<close> makes the watermark \<^verbatim>\<open>NaN\<close>, which
  \<^verbatim>\<open>lastFetchTime.get(trader) || 0\<close> reads as \<open>0\<close>. The feed of trader 2 brings 9999 new
  trades, and the clean-up at the end of the tick evicts the 5000 oldest hashes, that of the
  rejected trade among them. When the feed of trader 1 then brings the trade again, it is
  forwarded a second time.
\<close>

theorem lost_activity_forwarded_again:
  "map fst (invoked afterFailure) = [freshTrade 0]
   \<and> errorLog afterFailure = [(''0xtrader1'', Failure ''Execution error'')]
   \<and> hashOf 0 \<in> set (processedHashes afterFailure)
   \<and> lastFetchTime afterFailure ''0xtrader1'' = Some (activityTimeOf noDates (freshTrade 0))
   \<and> hashOf 0 \<notin> set (processedHashes afterEviction)
   \<and> lastFetchTime afterEviction ''0xtrader1'' = Some NaN
   \<and> map fst (calls_of ''0xtrader1'' (freshTrade 0)
        (tick noDates failsOnce mockEnv [(''0xtrader1'', 0, Inr [freshTrade 0])] afterEviction))
       = [freshTrade 0, freshTrade 0]"
proof -
  let ?a = "freshTrade 0"
  let ?sg = "buildSignal noDates ''0xtrader1'' ?a"
  let ?c = "Num (of_int (0 div 1000) - aggregationWindowSeconds mockEnv)"
  note ev = afterEviction_facts
  have c1: "map fst (invoked afterFailure) = [?a]" by (simp add: afterFailure_eq)
  have c2: "errorLog afterFailure = [(''0xtrader1'', Failure ''Execution error'')]"
    by (simp add: afterFailure_eq)
  have c3: "hashOf 0 \<in> set (processedHashes afterFailure)" by (simp add: afterFailure_eq)
  have c4: "lastFetchTime afterFailure ''0xtrader1'' = Some (activityTimeOf noDates ?a)"
    by (simp add: afterFailure_eq activityTimeOf_def freshTrade_def mockActivity_def)
  let ?st3 = "afterEviction\<lparr>processedHashes := processedHashes afterEviction @ [hashOf 0],
         lastFetchTime := (lastFetchTime afterEviction)(''0xtrader1'' \<mapsto> Num 1),
         invoked := invoked afterEviction @ [(?a, ?sg)]\<rparr>"
  have lt: "lastTimeOf afterEviction ''0xtrader1'' = Num 0"
    using ev(2) by (simp add: lastTimeOf_def js_or_def)
  have step: "processActivity noDates ''0xtrader1'' ?c ?a afterEviction = (Some ?sg, ?st3)"
    using ev(1) lt
    by (simp add: processActivity_def freshTrade_def mockActivity_def activityTimeOf_def
        Let_def set_add_def js_max_def mockEnv_def)
  have k: "failsOnce (length (invoked afterEviction)) ?sg = None"
    unfolding ev(4) by (simp add: failsOnce_def)
  have f: "fetchTraderActivities noDates failsOnce mockEnv 0 ''0xtrader1'' (Inr [?a]) afterEviction
        = ?st3"
    using step k by (simp add: fetchTraderActivities_def Let_def)
  have "calls_of ''0xtrader1'' ?a
          (tick noDates failsOnce mockEnv [(''0xtrader1'', 0, Inr [?a])] afterEviction)
        = calls_of ''0xtrader1'' ?a ?st3"
    unfolding tick_def using f by (simp add: cleanupHashCache_def calls_of_def Let_def)
  also have "\<dots> = calls_of ''0xtrader1'' ?a afterEviction @ [(?a, ?sg)]"
    by (simp add: calls_of_def buildSignal_def)
  also have "\<dots> = [(?a, ?sg), (?a, ?sg)]" unfolding ev(3) by simp
  finally have c7: "map fst (calls_of ''0xtrader1'' ?a
          (tick noDates failsOnce mockEnv [(''0xtrader1'', 0, Inr [?a])] afterEviction))
        = [?a, ?a]" by simp
  show ?thesis by (intro conjI c1 c2 c3 c4 ev(1) ev(2) c7)
qed

section \<open>Properties of the retry wrapper\<close>

lemma retryLoop_runOk:
  "loopVarsOk operation opts v \<Longrightarrow> runOk operation opts (retryLoop operation opts v)"
proof (induction operation opts v rule: retryLoop.induct)
  case (1 operation opts v)
  from "1.prems" have le: "attempt v \<le> maxRetries opts" and c: "calls v = attempt v"
    and d: "delay v = backoffDelay opts (attempt v)"
    and s: "slept v = map (backoffDelay opts) [0..<attempt v]"
    and r: "\<forall>j < attempt v. retried opts (operation j)"
    by (simp_all add: loopVarsOk_def)
  show ?case
  proof (cases "operation (calls v)")
    case (Returns x)
    then show ?thesis using le c s r
      by (subst retryLoop.simps) (simp add: runOk_def lastCall_def)
  next
    case (Throws err)
    show ?thesis
    proof (cases "attempt v = maxRetries opts")
      case True
      then show ?thesis using Throws le c s r
        by (subst retryLoop.simps) (simp add: runOk_def lastCall_def)
    next
      case False
      show ?thesis
      proof (cases "warnThrows opts err")
        case True
        then show ?thesis using Throws False le c s r
          by (subst retryLoop.simps) (simp add: runOk_def lastCall_def)
      next
        case nothrow: False
        let ?v' = "\<lparr>attempt = attempt v + 1,
                    delay = min (delay v * backoffMultiplier opts) (maxDelayMs opts),
                    lastError = Some err,
                    calls = calls v + 1,
                    slept = slept v @ [delay v],
                    warned = (if logger opts then warned v @ [(attempt v + 1, err)]
                              else warned v)\<rparr>"
        have rj: "\<forall>j < Suc (attempt v). retried opts (operation j)"
          using r Throws c nothrow by (auto simp: less_Suc_eq)
        have "loopVarsOk operation opts ?v'"
          using False le c d s rj by (simp add: loopVarsOk_def)
        from "1.IH" [OF le Throws False nothrow this]
        show ?thesis using Throws False nothrow le
          by (subst retryLoop.simps) simp
      qed
    qed
  qed
qed

lemma retryWithBackoff_runOk: "runOk operation opts (retryWithBackoff operation opts)"
  unfolding retryWithBackoff_def
  by (rule retryLoop_runOk) (simp add: loopVarsOk_def)

text \<open>The run stops at the first call that is not retried.\<close>

lemma retry_stops_at:
  assumes "k \<le> maxRetries opts" and "\<forall>j < k. retried opts (operation j)"
    and "k < maxRetries opts \<longrightarrow> \<not> retried opts (operation k)"
  shows "retry_calls (retryWithBackoff operation opts) = k + 1
         \<and> retry_result (retryWithBackoff operation opts) = lastCall operation opts k"
proof -
  let ?run = "retryWithBackoff operation opts"
  note ok = retryWithBackoff_runOk [of operation opts]
  have c1: "1 \<le> retry_calls ?run" and c2: "retry_calls ?run \<le> maxRetries opts + 1"
    using ok by (simp_all add: runOk_def)
  have rej: "\<forall>j < retry_calls ?run - 1. retried opts (operation j)"
    using ok by (simp add: runOk_def)
  have stop: "retry_calls ?run - 1 < maxRetries opts \<longrightarrow>
              \<not> retried opts (operation (retry_calls ?run - 1))"
    using ok by (simp add: runOk_def)
  have res: "retry_result ?run = lastCall operation opts (retry_calls ?run - 1)"
    using ok by (simp add: runOk_def)
  have a: "\<not> k < retry_calls ?run - 1"
  proof
    assume lt: "k < retry_calls ?run - 1"
    with rej have "retried opts (operation k)" by simp
    moreover from lt c2 have "k < maxRetries opts" by simp
    ultimately show False using assms(3) by simp
  qed
  have b: "\<not> retry_calls ?run - 1 < k"
  proof
    assume lt: "retry_calls ?run - 1 < k"
    with assms(2) have "retried opts (operation (retry_calls ?run - 1))" by simp
    moreover from lt assms(1) have "retry_calls ?run - 1 < maxRetries opts" by simp
    ultimately show False using stop by simp
  qed
  from a b have "retry_calls ?run - 1 = k" by simp
  with c1 res show ?thesis by simp
qed

text \<open>
  C6. \<^verbatim>\<open>retryWithBackoff\<close> calls the operation at most \<open>maxRetries + 1\<close> times, and the
  delays it sleeps between the calls are the backoff delays (\<^verbatim>\<open>initialDelayMs\<close> first, each
  next one the last times \<^verbatim>\<open>backoffMultiplier\<close>, capped at \<^verbatim>\<open>maxDelayMs\<close>). A call is retried
  when it throws, unless it throws \<^verbatim>\<open>undefined\<close> or \<^verbatim>\<open>null\<close> while a logger is set. If call
  number \<open>k\<close> is the first that returns and the calls before it are retried, its value is
  returned after exactly \<open>k + 1\<close> calls. If the calls before call number \<open>maxRetries\<close> are
  retried and that call throws, then after \<open>maxRetries + 1\<close> calls the value it threw is
  thrown again if it is truthy, and the error \<^verbatim>\<open>Retry failed with unknown error\<close> in its
  place if it is not. An operation that throws an \<^verbatim>\<open>Error\<close> twice and then succeeds gives its
  value after exactly three calls, if two retries are allowed.
\<close>

theorem retry_bounded_first_success_backoff:
  "retry_calls (retryWithBackoff operation opts) \<le> maxRetries opts + 1
   \<and> retry_delays (retryWithBackoff operation opts)
        = map (backoffDelay opts) [0..<retry_calls (retryWithBackoff operation opts) - 1]
   \<and> (k \<le> maxRetries opts \<and> operation k = Returns r
        \<and> (\<forall>j < k. retried opts (operation j)) \<longrightarrow>
        retry_result (retryWithBackoff operation opts) = Inr r
        \<and> retry_calls (retryWithBackoff operation opts) = k + 1)
   \<and> ((\<forall>j < maxRetries opts. retried opts (operation j))
        \<and> operation (maxRetries opts) = Throws (Truthy e) \<longrightarrow>
        retry_result (retryWithBackoff operation opts) = Inl e
        \<and> retry_calls (retryWithBackoff operation opts) = maxRetries opts + 1)
   \<and> ((\<forall>j < maxRetries opts. retried opts (operation j))
        \<and> (operation (maxRetries opts) = Throws Falsy
            \<or> operation (maxRetries opts) = Throws Nullish) \<longrightarrow>
        retry_result (retryWithBackoff operation opts) = Inl unknownError
        \<and> retry_calls (retryWithBackoff operation opts) = maxRetries opts + 1)
   \<and> (2 \<le> maxRetries opts \<longrightarrow>
        retry_result (retryWithBackoff (failsTwice v) opts) = Inr v
        \<and> retry_calls (retryWithBackoff (failsTwice v) opts) = 3)"
proof -
  let ?run = "retryWithBackoff operation opts"
  note ok = retryWithBackoff_runOk [of operation opts]
  have calls: "retry_calls ?run \<le> maxRetries opts + 1"
    using ok by (simp add: runOk_def)
  have delays: "retry_delays ?run = map (backoffDelay opts) [0..<retry_calls ?run - 1]"
    using ok by (simp add: runOk_def)
  have first: "retry_result ?run = Inr r \<and> retry_calls ?run = k + 1"
    if "k \<le> maxRetries opts \<and> operation k = Returns r
        \<and> (\<forall>j < k. retried opts (operation j))"
    using retry_stops_at [of k opts operation] that by (simp add: lastCall_def)
  have truthy: "retry_result ?run = Inl e \<and> retry_calls ?run = maxRetries opts + 1"
    if "(\<forall>j < maxRetries opts. retried opts (operation j))
        \<and> operation (maxRetries opts) = Throws (Truthy e)"
    using retry_stops_at [of "maxRetries opts" opts operation] that
    by (simp add: lastCall_def retryThrow_def)
  have falsy: "retry_result ?run = Inl unknownError \<and> retry_calls ?run = maxRetries opts + 1"
    if "(\<forall>j < maxRetries opts. retried opts (operation j))
        \<and> (operation (maxRetries opts) = Throws Falsy
            \<or> operation (maxRetries opts) = Throws Nullish)"
    using retry_stops_at [of "maxRetries opts" opts operation] that
    by (auto simp: lastCall_def retryThrow_def)
  have twice: "retry_result (retryWithBackoff (failsTwice v) opts) = Inr v
        \<and> retry_calls (retryWithBackoff (failsTwice v) opts) = 3" if "2 \<le> maxRetries opts"
    using retry_stops_at [of 2 opts "failsTwice v"] that
    by (simp add: lastCall_def failsTwice_def warnThrows_def)
  show ?thesis using calls delays first truthy falsy twice by blast
qed

theorem retry_bounded_first_success_backoff_witness:
  "(2::nat) \<le> maxRetries loggedOptions
   \<and> failsTwice ''ok'' 2 = Returns ''ok''
   \<and> retried loggedOptions (failsTwice ''ok'' 0) \<and> retried loggedOptions (failsTwice ''ok'' 1)
   \<and> retry_result (retryWithBackoff (failsTwice ''ok'') loggedOptions) = Inr ''ok''
   \<and> retry_calls (retryWithBackoff (failsTwice ''ok'') loggedOptions) = 3
   \<and> retry_delays (retryWithBackoff (failsTwice ''ok'') loggedOptions) = [1000, 2000]
   \<and> retried defaultOptions (alwaysDown 0) \<and> retried defaultOptions (alwaysDown 1)
   \<and> retried defaultOptions (alwaysDown 2)
   \<and> alwaysDown (maxRetries defaultOptions) = Throws (Truthy (Failure ''down''))
   \<and> retry_result (retryWithBackoff alwaysDown defaultOptions) = Inl (Failure ''down'')
   \<and> retry_calls (retryWithBackoff alwaysDown defaultOptions) = 4
   \<and> retry_delays (retryWithBackoff alwaysDown defaultOptions) = [1000, 2000, 4000]
   \<and> retried loggedOptions (alwaysZero 0) \<and> retried loggedOptions (alwaysZero 1)
   \<and> retried loggedOptions (alwaysZero 2)
   \<and> alwaysZero (maxRetries loggedOptions) = Throws Falsy
   \<and> retry_result (retryWithBackoff alwaysZero loggedOptions) = Inl unknownError
   \<and> retry_calls (retryWithBackoff alwaysZero loggedOptions) = 4"
proof -
  let ?ok = "retryWithBackoff (failsTwice ''ok'') loggedOptions"
  let ?down = "retryWithBackoff alwaysDown defaultOptions"
  have m: "(2::nat) \<le> maxRetries loggedOptions"
    by (simp add: loggedOptions_def defaultOptions_def)
  have r: "failsTwice ''ok'' 2 = Returns ''ok''" by (simp add: failsTwice_def)
  have j: "\<forall>j < 2. retried loggedOptions (failsTwice ''ok'' j)"
    by (simp add: failsTwice_def warnThrows_def)
  have j0: "retried loggedOptions (failsTwice ''ok'' 0)"
    "retried loggedOptions (failsTwice ''ok'' 1)"
    by (simp_all add: failsTwice_def warnThrows_def)
  note T = retry_bounded_first_success_backoff [of "failsTwice ''ok''" loggedOptions 2 "''ok''"
      "Failure ''down''" "''ok''"]
  from T m r j have c: "retry_result ?ok = Inr ''ok''" "retry_calls ?ok = 3" by simp_all
  from T have "retry_delays ?ok
        = map (backoffDelay loggedOptions) [0..<retry_calls ?ok - 1]"
    by (rule conjunct1 [OF conjunct2])
  also have "\<dots> = map (backoffDelay loggedOptions) [0, 1]" unfolding c(2) by (simp add: upt_rec)
  also have "\<dots> = [1000, 2000]" by (simp add: loggedOptions_def defaultOptions_def)
  finally have d: "retry_delays ?ok = [1000, 2000]" .
  have a: "\<forall>j < maxRetries defaultOptions. retried defaultOptions (alwaysDown j)"
    by (simp add: alwaysDown_def warnThrows_def defaultOptions_def)
  have a0: "retried defaultOptions (alwaysDown 0)" "retried defaultOptions (alwaysDown 1)"
    "retried defaultOptions (alwaysDown 2)"
    by (simp_all add: alwaysDown_def warnThrows_def defaultOptions_def)
  have l: "alwaysDown (maxRetries defaultOptions) = Throws (Truthy (Failure ''down''))"
    by (simp add: alwaysDown_def)
  note D = retry_bounded_first_success_backoff [of alwaysDown defaultOptions 0 "''ok''"
      "Failure ''down''" "''ok''"]
  from D a l have e: "retry_result ?down = Inl (Failure ''down'')"
    and e4: "retry_calls ?down = maxRetries defaultOptions + 1" by simp_all
  from e4 have f: "retry_calls ?down = 4" by (simp add: defaultOptions_def)
  from D have "retry_delays ?down
        = map (backoffDelay defaultOptions) [0..<retry_calls ?down - 1]"
    by (rule conjunct1 [OF conjunct2])
  also have "\<dots> = map (backoffDelay defaultOptions) [0, Suc 0, Suc (Suc 0)]"
    unfolding f by (simp add: upt_rec)
  also have "\<dots> = [1000, 2000, 4000]" by (simp add: defaultOptions_def)
  finally have g: "retry_delays ?down = [1000, 2000, 4000]" .
  let ?zero = "retryWithBackoff alwaysZero loggedOptions"
  have z: "\<forall>j < maxRetries loggedOptions. retried loggedOptions (alwaysZero j)"
    by (simp add: alwaysZero_def warnThrows_def)
  have z0: "retried loggedOptions (alwaysZero 0)" "retried loggedOptions (alwaysZero 1)"
    "retried loggedOptions (alwaysZero 2)"
    by (simp_all add: alwaysZero_def warnThrows_def)
  have zl: "alwaysZero (maxRetries loggedOptions) = Throws Falsy"
    by (simp add: alwaysZero_def)
  note Z = retry_bounded_first_success_backoff [of alwaysZero loggedOptions 0 "''ok''"
      "Failure ''down''" "''ok''"]
  from Z z zl have u: "retry_result ?zero = Inl unknownError"
    and u4: "retry_calls ?zero = maxRetries loggedOptions + 1" by simp_all
  from u4 have u': "retry_calls ?zero = 4" by (simp add: loggedOptions_def defaultOptions_def)
  show ?thesis by (intro conjI m r j0 c d a0 l e f g z0 zl u u')
qed

text \<open>
  With a logger, a first call that rejects with \<^verbatim>\<open>undefined\<close> ends the run: the warning
  throws a \<^verbatim>\<open>TypeError\<close>, the second call, which would have succeeded, is never made, and no
  delay is slept. And when every call rejects with \<^verbatim>\<open>undefined\<close> and there is no logger,
  what is thrown after the four calls is not what the operation threw.
\<close>

theorem bare_rejection_ends_retry:
  "rejectsBare ''ok'' 1 = Returns ''ok''
   \<and> maxRetries loggedOptions = 3
   \<and> retry_result (retryWithBackoff (rejectsBare ''ok'') loggedOptions) = Inl messageTypeError
   \<and> retry_calls (retryWithBackoff (rejectsBare ''ok'') loggedOptions) = 1
   \<and> retry_delays (retryWithBackoff (rejectsBare ''ok'') loggedOptions) = []
   \<and> retry_result (retryWithBackoff alwaysBare defaultOptions) = Inl unknownError
   \<and> retry_calls (retryWithBackoff alwaysBare defaultOptions) = 4"
  by (simp add: retryWithBackoff_def rejectsBare_def alwaysBare_def loggedOptions_def
      defaultOptions_def warnThrows_def retryThrow_def)

section \<open>Properties of the order executor\<close>

lemma fillStep_fetch_error:
  "getOrderBook cl (bookCalls st) tokenId = Inl e \<Longrightarrow>
   fillStep cl isBuy tokenId st = Inl (Inl (ClientError e), st\<lparr>bookCalls := bookCalls st + 1\<rparr>)"
  by (simp add: fillStep_def)

lemma fillStep_empty:
  "getOrderBook cl (bookCalls st) tokenId = Inr book \<Longrightarrow>
   (if isBuy then asks book else bids book) = [] \<Longrightarrow>
   fillStep cl isBuy tokenId st = Inl (Inr (), st\<lparr>bookCalls := bookCalls st + 1\<rparr>)"
  by (simp add: fillStep_def)

lemma submitLevel_accepted:
  "submitOrder cl (length (submitted st)) (orderFor isBuy tokenId st level) = Inr True \<Longrightarrow>
   submitLevel cl isBuy tokenId (st\<lparr>bookCalls := bookCalls st + 1\<rparr>) level =
     Inr ((afterSubmit isBuy tokenId st level)
            \<lparr>remaining := js_sub (remaining st) (fillableValue st level), retryCount := 0\<rparr>)"
  by (simp add: submitLevel_def orderFor_def fillableValue_def afterSubmit_def Let_def)

lemma submitLevel_rejected:
  "submitOrder cl (length (submitted st)) (orderFor isBuy tokenId st level) = Inr False \<Longrightarrow>
   submitLevel cl isBuy tokenId (st\<lparr>bookCalls := bookCalls st + 1\<rparr>) level =
     Inr ((afterSubmit isBuy tokenId st level)\<lparr>retryCount := retryCount st + 1\<rparr>)"
  by (simp add: submitLevel_def orderFor_def fillableValue_def afterSubmit_def Let_def)

lemma submitLevel_threw:
  "submitOrder cl (length (submitted st)) (orderFor isBuy tokenId st level) = Inl e \<Longrightarrow>
   submitLevel cl isBuy tokenId (st\<lparr>bookCalls := bookCalls st + 1\<rparr>) level =
     (if retryCount st + 1 \<ge> fillMaxRetries
      then Inl (Inl (ClientError e), (afterSubmit isBuy tokenId st level)\<lparr>retryCount := retryCount st + 1\<rparr>)
      else Inr ((afterSubmit isBuy tokenId st level)\<lparr>retryCount := retryCount st + 1\<rparr>))"
  by (simp add: submitLevel_def orderFor_def fillableValue_def afterSubmit_def Let_def)

lemma fillStep_best:
  "bestLevel cl isBuy tokenId st = Some level \<Longrightarrow>
   fillStep cl isBuy tokenId st = submitLevel cl isBuy tokenId (st\<lparr>bookCalls := bookCalls st + 1\<rparr>) level"
  by (auto simp: bestLevel_def fillStep_def Let_def split: sum.splits list.splits if_splits)

lemma fillStep_level:
  "bestLevel cl isBuy tokenId st = Some level \<Longrightarrow>
   fillStep cl isBuy tokenId st =
     (case submitOrder cl (length (submitted st)) (orderFor isBuy tokenId st level) of
        Inr success \<Rightarrow>
          if success
          then Inr ((afterSubmit isBuy tokenId st level)
                      \<lparr>remaining := js_sub (remaining st) (fillableValue st level), retryCount := 0\<rparr>)
          else Inr ((afterSubmit isBuy tokenId st level)\<lparr>retryCount := retryCount st + 1\<rparr>)
      | Inl e \<Rightarrow>
          if retryCount st + 1 \<ge> fillMaxRetries
          then Inl (Inl (ClientError e), (afterSubmit isBuy tokenId st level)\<lparr>retryCount := retryCount st + 1\<rparr>)
          else Inr ((afterSubmit isBuy tokenId st level)\<lparr>retryCount := retryCount st + 1\<rparr>))"
proof (cases "submitOrder cl (length (submitted st)) (orderFor isBuy tokenId st level)")
  case (Inl e)
  assume "bestLevel cl isBuy tokenId st = Some level"
  then show ?thesis using Inl submitLevel_threw [OF Inl]
    by (simp only: fillStep_best sum.case)
next
  case (Inr success)
  assume b: "bestLevel cl isBuy tokenId st = Some level"
  show ?thesis
  proof (cases success)
    case True
    with Inr have "submitOrder cl (length (submitted st)) (orderFor isBuy tokenId st level) = Inr True"
      by simp
    from submitLevel_accepted [OF this] b Inr True show ?thesis
      by (simp only: fillStep_best sum.case if_True)
  next
    case False
    with Inr have "submitOrder cl (length (submitted st)) (orderFor isBuy tokenId st level) = Inr False"
      by simp
    from submitLevel_rejected [OF this] b Inr False show ?thesis
      by (simp only: fillStep_best sum.case if_False)
  qed
qed

lemma bestLevel_cases:
  "(\<exists>e. getOrderBook cl (bookCalls st) tokenId = Inl e)
   \<or> (\<exists>book. getOrderBook cl (bookCalls st) tokenId = Inr book \<and> (if isBuy then asks book else bids book) = [])
   \<or> (\<exists>level. bestLevel cl isBuy tokenId st = Some level)"
  by (auto simp: bestLevel_def split: sum.splits list.splits)

lemmas order_eval = postOrder_def postOrderChecks_def slippageCheck_def buyInput_def constClient_def sampleMarket_def
  tokenAt_def fillTest_def fillStep_def submitLevel_def fillMaxRetries_def js_gt_def js_min_def
  js_sub_def slippageOf_def Let_def

lemma stuck_step:
  "remaining st = Num 10 \<Longrightarrow> retryCount st = 0 \<Longrightarrow>
   fillTest st \<and> (\<exists>st'. fillStep stuckClient True tokenId st = Inr st' \<and> remaining st' = Num 10 \<and> retryCount st' = 0)"
  by (simp add: stuckClient_def order_eval)

lemma stuck_forever:
  assumes "fillLoop cl isBuy tokenId st = Some y"
  shows "\<not> (cl = stuckClient \<and> isBuy \<and> remaining st = Num 10 \<and> retryCount st = 0)"
proof (rule fillLoop.raw_induct
    [where P = "\<lambda>cl isBuy tokenId st y.
       \<not> (cl = stuckClient \<and> isBuy \<and> remaining st = Num 10 \<and> retryCount st = 0)",
     OF _ assms])
  fix loop :: "ClobClient \<Rightarrow> bool \<Rightarrow> string option \<Rightarrow> FillState
     \<Rightarrow> ((order_error + unit) \<times> FillState) option"
  fix cl isBuy tokenId st y
  assume IH: "\<And>cl isBuy tokenId st y. loop cl isBuy tokenId st = Some y \<Longrightarrow>
       \<not> (cl = stuckClient \<and> isBuy \<and> remaining st = Num 10 \<and> retryCount st = 0)"
    and body: "(if fillTest st
      then case fillStep cl isBuy tokenId st of Inl finished \<Rightarrow> Some finished
           | Inr st' \<Rightarrow> loop cl isBuy tokenId st'
      else Some (Inr (), st)) = Some y"
  show "\<not> (cl = stuckClient \<and> isBuy \<and> remaining st = Num 10 \<and> retryCount st = 0)"
  proof
    assume a: "cl = stuckClient \<and> isBuy \<and> remaining st = Num 10 \<and> retryCount st = 0"
    then have r: "remaining st = Num 10" "retryCount st = 0" by simp_all
    from stuck_step [OF r, of tokenId] obtain st' where
      t: "fillTest st" and s: "fillStep stuckClient True tokenId st = Inr st'"
      and i: "remaining st' = Num 10" "retryCount st' = 0" by auto
    from a have b: "isBuy = True" "cl = stuckClient" by simp_all
    from body t s have "loop stuckClient True tokenId st' = Some y" by (simp add: b)
    from IH [OF this] i show False by simp
  qed
qed

text \<open>
  C8 as stated fails: with a book whose best ask has size \<open>0\<close> and an exchange that accepts
  every order, each pass fills nothing and resets the attempt counter, and \<^verbatim>\<open>postOrder\<close>
  never returns.
\<close>

theorem fill_loop_runs_forever: "postOrder (buyInput stuckClient None) = None"
proof -
  let ?st = "\<lparr>remaining = Num 10, retryCount = 0, bookCalls = 1, submitted = [], warnings = []\<rparr>"
  have p: "postOrder (buyInput stuckClient None) = fillLoop stuckClient True (Some ''token-yes'') ?st"
    by (simp add: stuckClient_def order_eval)
  have "fillLoop stuckClient True (Some ''token-yes'') ?st = None"
  proof (cases "fillLoop stuckClient True (Some ''token-yes'') ?st")
    case None
    then show ?thesis .
  next
    case (Some y)
    from stuck_forever [OF this] show ?thesis by simp
  qed
  with p show ?thesis by simp
qed

lemma fillLoop_exit: "\<not> fillTest st \<Longrightarrow> fillLoop cl isBuy tokenId st = Some (Inr (), st)"
  by (subst fillLoop.simps) simp

lemma fillLoop_step_exit:
  "fillTest st \<Longrightarrow> fillStep cl isBuy tokenId st = Inl fin \<Longrightarrow>
   fillLoop cl isBuy tokenId st = Some fin"
  by (subst fillLoop.simps) simp

lemma fillLoop_step_continue:
  "fillTest st \<Longrightarrow> fillStep cl isBuy tokenId st = Inr st' \<Longrightarrow>
   fillLoop cl isBuy tokenId st = fillLoop cl isBuy tokenId st'"
  by (subst fillLoop.simps) simp

lemma fillStep_progress:
  assumes a: "\<forall>k args. n \<le> k \<longrightarrow> submitOrder cl k args \<noteq> Inr True"
    and t: "fillTest st" and s: "fillStep cl isBuy tokenId st = Inr st'"
  shows "fillMeasure n st' < fillMeasure n st"
proof -
  from t have c: "retryCount st < 3" by (simp add: fillTest_def fillMaxRetries_def)
  from bestLevel_cases [of cl st tokenId isBuy] s
  obtain level where b: "bestLevel cl isBuy tokenId st = Some level"
    by (auto simp: fillStep_fetch_error fillStep_empty)
  show ?thesis
  proof (cases "submitOrder cl (length (submitted st)) (orderFor isBuy tokenId st level)")
    case (Inl e)
    with s b have "st' = (afterSubmit isBuy tokenId st level)\<lparr>retryCount := retryCount st + 1\<rparr>"
      by (simp add: fillStep_level split: if_splits)
    then show ?thesis using c by (simp add: afterSubmit_def fillMeasure_def)
  next
    case (Inr success)
    show ?thesis
    proof (cases success)
      case False
      with Inr s b have "st' = (afterSubmit isBuy tokenId st level)\<lparr>retryCount := retryCount st + 1\<rparr>"
        by (simp add: fillStep_level)
      then show ?thesis using c by (simp add: afterSubmit_def fillMeasure_def)
    next
      case True
      with Inr a have "\<not> n \<le> length (submitted st)" by auto
      then have lt: "length (submitted st) < n" by simp
      from True Inr s b have "st' = (afterSubmit isBuy tokenId st level)
              \<lparr>remaining := js_sub (remaining st) (fillableValue st level), retryCount := 0\<rparr>"
        by (simp add: fillStep_level)
      then have "fillMeasure n st' = 4 * (n - Suc (length (submitted st))) + 3"
        by (simp add: afterSubmit_def fillMeasure_def)
      moreover have "fillMeasure n st = 4 * (n - length (submitted st)) + (3 - retryCount st)"
        by (simp add: fillMeasure_def)
      ultimately show ?thesis using lt by linarith
    qed
  qed
qed

lemma fillLoop_terminates:
  assumes a: "\<forall>k args. n \<le> k \<longrightarrow> submitOrder cl k args \<noteq> Inr True"
  shows "\<exists>res. fillLoop cl isBuy tokenId st = Some res"
proof (induction "fillMeasure n st" arbitrary: st rule: less_induct)
  case less
  show ?case
  proof (cases "fillTest st")
    case False
    then show ?thesis by (subst fillLoop.simps) simp
  next
    case True
    show ?thesis
    proof (cases "fillStep cl isBuy tokenId st")
      case (Inl fin)
      with True show ?thesis by (subst fillLoop.simps) simp
    next
      case (Inr st')
      from fillStep_progress [OF a True Inr]
      have "fillMeasure n st' < fillMeasure n st" .
      from less.hyps [OF this] obtain res where "fillLoop cl isBuy tokenId st' = Some res" ..
      with True Inr show ?thesis by (subst fillLoop.simps) simp
    qed
  qed
qed

lemma postOrder_terminates:
  assumes "\<forall>k args. n \<le> k \<longrightarrow> submitOrder (client input) k args \<noteq> Inr True"
  shows "\<exists>res. postOrder input = Some res"
proof (cases "postOrderChecks input")
  case (Inl thrown)
  then show ?thesis by (cases thrown) (simp add: postOrder_def)
next
  case (Inr start)
  obtain isBuy tokenId st where "start = (isBuy, tokenId, st)" by (cases start) auto
  with Inr have "postOrder input = fillLoop (client input) isBuy tokenId st"
    by (simp add: postOrder_def)
  with fillLoop_terminates [OF assms, of isBuy tokenId st] show ?thesis by simp
qed

text \<open>
  C8, as amended. The loop, and \<^verbatim>\<open>postOrder\<close> with it, ends whenever the exchange accepts
  none of the submissions from some number \<open>n\<close> on, whatever the book and the other
  responses are. It leaves at once, returning normally, when the remaining notional is at
  most 0.01 or the attempt counter has reached 3, and when the fetched side of the book is
  empty. A pass whose order is accepted subtracts \<open>min(remaining, size \<times> price)\<close> from the
  remaining notional and resets the counter; a rejection adds one to the counter and raises
  nothing; an exception of the submission adds one to the counter and is thrown on only if
  the counter has then reached 3.
\<close>

theorem fill_loop_steps_and_termination:
  "((\<forall>k args. n \<le> k \<longrightarrow> submitOrder cl k args \<noteq> Inr True) \<longrightarrow>
      (\<exists>res. fillLoop cl isBuy tokenId st = Some res))
   \<and> ((\<forall>k args. n \<le> k \<longrightarrow> submitOrder (client input) k args \<noteq> Inr True) \<longrightarrow>
      (\<exists>res. postOrder input = Some res))
   \<and> (\<not> (js_gt (remaining st) (Num 0.01) \<and> retryCount st < 3) \<longrightarrow>
        fillLoop cl isBuy tokenId st = Some (Inr (), st))
   \<and> (fillTest st \<and> getOrderBook cl (bookCalls st) tokenId = Inr book
        \<and> (if isBuy then asks book else bids book) = [] \<longrightarrow>
        fillLoop cl isBuy tokenId st = Some (Inr (), st\<lparr>bookCalls := bookCalls st + 1\<rparr>))
   \<and> (bestLevel cl isBuy tokenId st = Some level
        \<and> submitOrder cl (length (submitted st)) (orderFor isBuy tokenId st level) = Inr True \<longrightarrow>
        fillStep cl isBuy tokenId st =
          Inr ((afterSubmit isBuy tokenId st level)
                 \<lparr>remaining := js_sub (remaining st)
                     (js_min (remaining st) (js_mul (level_size level) (level_price level))),
                  retryCount := 0\<rparr>))
   \<and> (bestLevel cl isBuy tokenId st = Some level
        \<and> submitOrder cl (length (submitted st)) (orderFor isBuy tokenId st level) = Inr False \<longrightarrow>
        fillStep cl isBuy tokenId st =
          Inr ((afterSubmit isBuy tokenId st level)\<lparr>retryCount := retryCount st + 1\<rparr>))
   \<and> (bestLevel cl isBuy tokenId st = Some level
        \<and> submitOrder cl (length (submitted st)) (orderFor isBuy tokenId st level) = Inl e \<longrightarrow>
        fillStep cl isBuy tokenId st =
          (if retryCount st + 1 \<ge> 3
           then Inl (Inl (ClientError e),
                     (afterSubmit isBuy tokenId st level)\<lparr>retryCount := retryCount st + 1\<rparr>)
           else Inr ((afterSubmit isBuy tokenId st level)\<lparr>retryCount := retryCount st + 1\<rparr>)))"
proof (intro conjI impI)
  assume "\<forall>k args. n \<le> k \<longrightarrow> submitOrder cl k args \<noteq> Inr True"
  then show "\<exists>res. fillLoop cl isBuy tokenId st = Some res"
    by (rule fillLoop_terminates)
next
  assume "\<forall>k args. n \<le> k \<longrightarrow> submitOrder (client input) k args \<noteq> Inr True"
  then show "\<exists>res. postOrder input = Some res"
    by (rule postOrder_terminates)
next
  assume "\<not> (js_gt (remaining st) (Num 0.01) \<and> retryCount st < 3)"
  then have "\<not> fillTest st" by (simp add: fillTest_def fillMaxRetries_def)
  then show "fillLoop cl isBuy tokenId st = Some (Inr (), st)" by (rule fillLoop_exit)
next
  assume "fillTest st \<and> getOrderBook cl (bookCalls st) tokenId = Inr book
        \<and> (if isBuy then asks book else bids book) = []"
  then show "fillLoop cl isBuy tokenId st = Some (Inr (), st\<lparr>bookCalls := bookCalls st + 1\<rparr>)"
    using fillStep_empty [of cl st tokenId book isBuy] by (simp add: fillLoop_step_exit)
next
  assume "bestLevel cl isBuy tokenId st = Some level
        \<and> submitOrder cl (length (submitted st)) (orderFor isBuy tokenId st level) = Inr True"
  then show "fillStep cl isBuy tokenId st =
          Inr ((afterSubmit isBuy tokenId st level)
                 \<lparr>remaining := js_sub (remaining st)
                     (js_min (remaining st) (js_mul (level_size level) (level_price level))),
                  retryCount := 0\<rparr>)"
    by (simp add: fillStep_level fillableValue_def)
next
  assume "bestLevel cl isBuy tokenId st = Some level
        \<and> submitOrder cl (length (submitted st)) (orderFor isBuy tokenId st level) = Inr False"
  then show "fillStep cl isBuy tokenId st =
          Inr ((afterSubmit isBuy tokenId st level)\<lparr>retryCount := retryCount st + 1\<rparr>)"
    by (simp add: fillStep_level)
next
  assume "bestLevel cl isBuy tokenId st = Some level
        \<and> submitOrder cl (length (submitted st)) (orderFor isBuy tokenId st level) = Inl e"
  then show "fillStep cl isBuy tokenId st =
          (if retryCount st + 1 \<ge> 3
           then Inl (Inl (ClientError e),
                     (afterSubmit isBuy tokenId st level)\<lparr>retryCount := retryCount st + 1\<rparr>)
           else Inr ((afterSubmit isBuy tokenId st level)\<lparr>retryCount := retryCount st + 1\<rparr>))"
    by (simp add: fillStep_level fillMaxRetries_def)
qed

lemma fillStep_cases:
  "(\<exists>e. getOrderBook cl (bookCalls st) tokenId = Inl e
        \<and> fillStep cl isBuy tokenId st = Inl (Inl (ClientError e), st\<lparr>bookCalls := bookCalls st + 1\<rparr>))
   \<or> fillStep cl isBuy tokenId st = Inl (Inr (), st\<lparr>bookCalls := bookCalls st + 1\<rparr>)
   \<or> (\<exists>level e. submitOrder cl (length (submitted st)) (orderFor isBuy tokenId st level) = Inl e
        \<and> fillMaxRetries \<le> retryCount st + 1
        \<and> fillStep cl isBuy tokenId st =
            Inl (Inl (ClientError e), (afterSubmit isBuy tokenId st level)\<lparr>retryCount := retryCount st + 1\<rparr>))
   \<or> (\<exists>st'. fillStep cl isBuy tokenId st = Inr st' \<and> warnings st' = warnings st)"
proof -
  from bestLevel_cases [of cl st tokenId isBuy] show ?thesis
  proof (elim disjE exE conjE)
    fix e assume "getOrderBook cl (bookCalls st) tokenId = Inl e"
    then show ?thesis by (simp add: fillStep_fetch_error)
  next
    fix book assume "getOrderBook cl (bookCalls st) tokenId = Inr book"
      "(if isBuy then asks book else bids book) = []"
    then show ?thesis by (simp add: fillStep_empty)
  next
    fix level assume b: "bestLevel cl isBuy tokenId st = Some level"
    show ?thesis
    proof (cases "submitOrder cl (length (submitted st)) (orderFor isBuy tokenId st level)")
      case (Inl e)
      show ?thesis
      proof (cases "fillMaxRetries \<le> retryCount st + 1")
        case True
        with Inl b have "fillStep cl isBuy tokenId st =
            Inl (Inl (ClientError e), (afterSubmit isBuy tokenId st level)\<lparr>retryCount := retryCount st + 1\<rparr>)"
          by (simp add: fillStep_level)
        with Inl True show ?thesis by blast
      next
        case False
        with Inl b show ?thesis by (simp add: fillStep_level afterSubmit_def)
      qed
    next
      case (Inr success)
      with b show ?thesis by (simp add: fillStep_level afterSubmit_def)
    qed
  qed
qed

lemma fillLoop_result:
  assumes "fillLoop cl isBuy tokenId st = Some y"
  shows "warnings (snd y) = warnings st
     \<and> (case fst y of Inr u \<Rightarrow> True | Inl err \<Rightarrow> raisedBy cl tokenId err (snd y))"
proof (rule fillLoop.raw_induct
    [where P = "\<lambda>cl isBuy tokenId st y. warnings (snd y) = warnings st
     \<and> (case fst y of Inr u \<Rightarrow> True | Inl err \<Rightarrow> raisedBy cl tokenId err (snd y))",
     OF _ assms])
  fix loop :: "ClobClient \<Rightarrow> bool \<Rightarrow> string option \<Rightarrow> FillState
     \<Rightarrow> ((order_error + unit) \<times> FillState) option"
  fix cl isBuy tokenId st y
  assume IH: "\<And>cl isBuy tokenId st y. loop cl isBuy tokenId st = Some y \<Longrightarrow>
       warnings (snd y) = warnings st
     \<and> (case fst y of Inr u \<Rightarrow> True | Inl err \<Rightarrow> raisedBy cl tokenId err (snd y))"
    and body: "(if fillTest st
      then case fillStep cl isBuy tokenId st of Inl finished \<Rightarrow> Some finished
           | Inr st' \<Rightarrow> loop cl isBuy tokenId st'
      else Some (Inr (), st)) = Some y"
  show "warnings (snd y) = warnings st
     \<and> (case fst y of Inr u \<Rightarrow> True | Inl err \<Rightarrow> raisedBy cl tokenId err (snd y))"
  proof (cases "fillTest st")
    case False
    with body show ?thesis by auto
  next
    case True
    from fillStep_cases [of cl st tokenId isBuy] show ?thesis
    proof (elim disjE exE conjE)
      fix e assume "getOrderBook cl (bookCalls st) tokenId = Inl e"
        "fillStep cl isBuy tokenId st = Inl (Inl (ClientError e), st\<lparr>bookCalls := bookCalls st + 1\<rparr>)"
      with body True show ?thesis by (auto simp: raisedBy_def)
    next
      assume "fillStep cl isBuy tokenId st = Inl (Inr (), st\<lparr>bookCalls := bookCalls st + 1\<rparr>)"
      with body True show ?thesis by auto
    next
      fix level e
      assume "submitOrder cl (length (submitted st)) (orderFor isBuy tokenId st level) = Inl e"
        "fillMaxRetries \<le> retryCount st + 1"
        "fillStep cl isBuy tokenId st =
            Inl (Inl (ClientError e), (afterSubmit isBuy tokenId st level)\<lparr>retryCount := retryCount st + 1\<rparr>)"
      with body True show ?thesis by (auto simp: raisedBy_def afterSubmit_def)
    next
      fix st'
      assume s: "fillStep cl isBuy tokenId st = Inr st'" and w: "warnings st' = warnings st"
      with body True have "loop cl isBuy tokenId st' = Some y" by simp
      from IH [OF this] w show ?thesis by simp
    qed
  qed
qed

lemmas fill_eval = startState_def thirdTry_def halfLevel_def bestLevel_def orderFor_def
  afterSubmit_def fillableValue_def constClient_def fillTest_def fillMaxRetries_def js_gt_def
  js_min_def js_sub_def

theorem fill_loop_steps_and_termination_witness:
  "submitOrder fillsOnce = (\<lambda>k args. Inr (k = 0))
   \<and> client (buyInput fillsOnce None) = fillsOnce
   \<and> fillLoop fillsOnce True (Some ''token-yes'') startState \<noteq> None
   \<and> postOrder (buyInput fillsOnce None) \<noteq> None
   \<and> postOrder (buyInput fillsOnce None)
       = Some (Inr (), \<lparr>remaining = Num 5, retryCount = 3, bookCalls = 5,
                        submitted = [fiveOrder, fiveOrder, fiveOrder, fiveOrder], warnings = []\<rparr>)
   \<and> \<not> (js_gt (remaining (startState\<lparr>remaining := Num 0\<rparr>)) (Num 0.01)
          \<and> retryCount (startState\<lparr>remaining := Num 0\<rparr>) < 3)
   \<and> fillLoop fillingClient True (Some ''token-yes'') (startState\<lparr>remaining := Num 0\<rparr>)
       = Some (Inr (), startState\<lparr>remaining := Num 0\<rparr>)
   \<and> fillTest halfFilled
   \<and> getOrderBook emptyingClient (bookCalls halfFilled) (Some ''token-yes'')
       = Inr \<lparr>asks = [], bids = []\<rparr>
   \<and> fillLoop emptyingClient True (Some ''token-yes'') halfFilled
       = Some (Inr (), halfFilled\<lparr>bookCalls := 3\<rparr>)
   \<and> bestLevel rejectingClient True (Some ''token-yes'') startState = Some halfLevel
   \<and> submitOrder rejectingClient (length (submitted startState))
        (orderFor True (Some ''token-yes'') startState halfLevel) = Inr False
   \<and> retryCount (projr (fillStep rejectingClient True (Some ''token-yes'') startState)) = 1
   \<and> remaining (projr (fillStep rejectingClient True (Some ''token-yes'') startState)) = Num 10
   \<and> submitOrder (constClient [halfLevel] (Inr True)) (length (submitted startState))
        (orderFor True (Some ''token-yes'') startState halfLevel) = Inr True
   \<and> retryCount (projr (fillStep (constClient [halfLevel] (Inr True)) True (Some ''token-yes'')
        thirdTry)) = 0
   \<and> remaining (projr (fillStep (constClient [halfLevel] (Inr True)) True (Some ''token-yes'')
        thirdTry)) = Num 0
   \<and> submitOrder throwingClient (length (submitted thirdTry))
        (orderFor True (Some ''token-yes'') thirdTry halfLevel) = Inl (Failure ''network'')
   \<and> fst (projl (fillStep throwingClient True (Some ''token-yes'') thirdTry))
       = Inl (ClientError (Failure ''network''))"
proof -
  let ?tok = "Some ''token-yes''"
  let ?in = "buyInput fillsOnce None"
  have h1: "submitOrder fillsOnce = (\<lambda>k args. Inr (k = 0))" by (simp add: fillsOnce_def)
  have h2: "client ?in = fillsOnce" by (simp add: buyInput_def)
  have a1: "\<forall>k args. 1 \<le> k \<longrightarrow> submitOrder fillsOnce k args \<noteq> Inr True"
    by (simp add: h1)
  have a2: "\<forall>k args. 1 \<le> k \<longrightarrow> submitOrder (client ?in) k args \<noteq> Inr True"
    by (simp add: h1 h2)
  note T = fill_loop_steps_and_termination [of 1 fillsOnce True ?tok startState ?in]
  from T a1 have c1: "fillLoop fillsOnce True ?tok startState \<noteq> None" by auto
  from T a2 have c1': "postOrder ?in \<noteq> None" by auto
  have c1'': "postOrder ?in
       = Some (Inr (), \<lparr>remaining = Num 5, retryCount = 3, bookCalls = 5,
                        submitted = [fiveOrder, fiveOrder, fiveOrder, fiveOrder], warnings = []\<rparr>)"
    by (simp add: fillsOnce_def fiveLevel_def fiveOrder_def order_eval fillLoop.simps)
  let ?z = "startState\<lparr>remaining := Num 0\<rparr>"
  have h4: "\<not> (js_gt (remaining ?z) (Num 0.01) \<and> retryCount ?z < 3)"
    by (simp add: js_gt_def)
  from fill_loop_steps_and_termination [of 1 fillingClient True ?tok ?z] h4
  have c2: "fillLoop fillingClient True ?tok ?z = Some (Inr (), ?z)" by blast
  have t3: "fillTest halfFilled" by (simp add: halfFilled_def fill_eval)
  have e3: "getOrderBook emptyingClient (bookCalls halfFilled) ?tok = Inr \<lparr>asks = [], bids = []\<rparr>"
    by (simp add: emptyingClient_def halfFilled_def)
  from fill_loop_steps_and_termination
    [of 1 emptyingClient True ?tok halfFilled _ "\<lparr>asks = [], bids = []\<rparr>"] t3 e3
  have "fillLoop emptyingClient True ?tok halfFilled
       = Some (Inr (), halfFilled\<lparr>bookCalls := bookCalls halfFilled + 1\<rparr>)" by simp
  then have c3e: "fillLoop emptyingClient True ?tok halfFilled
       = Some (Inr (), halfFilled\<lparr>bookCalls := 3\<rparr>)"
    by (simp add: halfFilled_def)
  have h5: "bestLevel rejectingClient True ?tok startState = Some halfLevel"
    by (simp add: rejectingClient_def fill_eval)
  have h6: "submitOrder rejectingClient (length (submitted startState))
        (orderFor True ?tok startState halfLevel) = Inr False"
    by (simp add: rejectingClient_def fill_eval)
  from fill_loop_steps_and_termination
    [of 1 rejectingClient True ?tok startState _ _ halfLevel] h5 h6
  have "fillStep rejectingClient True ?tok startState =
          Inr ((afterSubmit True ?tok startState halfLevel)\<lparr>retryCount := retryCount startState + 1\<rparr>)"
    by blast
  then have c3: "retryCount (projr (fillStep rejectingClient True ?tok startState)) = 1"
    "remaining (projr (fillStep rejectingClient True ?tok startState)) = Num 10"
    by (simp_all add: fill_eval)
  let ?ok = "constClient [halfLevel] (Inr True)"
  have h7: "bestLevel ?ok True ?tok thirdTry = Some halfLevel"
    by (simp add: fill_eval)
  have h8: "submitOrder ?ok (length (submitted startState))
        (orderFor True ?tok startState halfLevel) = Inr True"
    by (simp add: fill_eval)
  have h8': "submitOrder ?ok (length (submitted thirdTry))
        (orderFor True ?tok thirdTry halfLevel) = Inr True"
    by (simp add: fill_eval)
  from fill_loop_steps_and_termination [of 1 ?ok True ?tok thirdTry _ _ halfLevel] h7 h8'
  have "fillStep ?ok True ?tok thirdTry =
          Inr ((afterSubmit True ?tok thirdTry halfLevel)
                 \<lparr>remaining := js_sub (remaining thirdTry)
                     (js_min (remaining thirdTry) (js_mul (level_size halfLevel) (level_price halfLevel))),
                  retryCount := 0\<rparr>)"
    by blast
  then have c4: "retryCount (projr (fillStep ?ok True ?tok thirdTry)) = 0"
    "remaining (projr (fillStep ?ok True ?tok thirdTry)) = Num 0"
    by (simp_all add: fill_eval)
  have h9: "bestLevel throwingClient True ?tok thirdTry = Some halfLevel"
    by (simp add: throwingClient_def fill_eval)
  have h10: "submitOrder throwingClient (length (submitted thirdTry))
        (orderFor True ?tok thirdTry halfLevel) = Inl (Failure ''network'')"
    by (simp add: throwingClient_def fill_eval)
  from fill_loop_steps_and_termination
    [of 1 throwingClient True ?tok thirdTry _ _ halfLevel "Failure ''network''"] h9 h10
  have "fillStep throwingClient True ?tok thirdTry =
          (if retryCount thirdTry + 1 \<ge> 3
           then Inl (Inl (ClientError (Failure ''network'')),
                     (afterSubmit True ?tok thirdTry halfLevel)\<lparr>retryCount := retryCount thirdTry + 1\<rparr>)
           else Inr ((afterSubmit True ?tok thirdTry halfLevel)\<lparr>retryCount := retryCount thirdTry + 1\<rparr>))"
    by blast
  then have c5: "fst (projl (fillStep throwingClient True ?tok thirdTry))
       = Inl (ClientError (Failure ''network''))"
    by (simp add: fill_eval)
  show ?thesis by (intro conjI h1 h2 c1 c1' c1'' h4 c2 t3 e3 c3e h5 h6 c3 h8 c4 h10 c5)
qed

lemma fillLoop_rejected_out:
  assumes t: "fillTest st" and b: "bestLevel cl isBuy tokenId st = Some level"
    and s: "submitOrder cl (length (submitted st)) (orderFor isBuy tokenId st level) = Inr False"
    and x: "3 \<le> retryCount st + 1"
  shows "fillLoop cl isBuy tokenId st =
     Some (Inr (), (afterSubmit isBuy tokenId st level)\<lparr>retryCount := retryCount st + 1\<rparr>)"
proof -
  let ?st' = "(afterSubmit isBuy tokenId st level)\<lparr>retryCount := retryCount st + 1\<rparr>"
  have "fillStep cl isBuy tokenId st = Inr ?st'" using b s by (simp add: fillStep_level)
  from fillLoop_step_continue [OF t this]
  have "fillLoop cl isBuy tokenId st = fillLoop cl isBuy tokenId ?st'" .
  moreover have "\<not> fillTest ?st'" using x by (simp add: fillTest_def fillMaxRetries_def)
  ultimately show ?thesis by (simp add: fillLoop_exit)
qed

lemma fillLoop_threw_out:
  assumes t: "fillTest st" and b: "bestLevel cl isBuy tokenId st = Some level"
    and s: "submitOrder cl (length (submitted st)) (orderFor isBuy tokenId st level) = Inl e"
    and x: "3 \<le> retryCount st + 1"
  shows "fillLoop cl isBuy tokenId st =
     Some (Inl (ClientError e), (afterSubmit isBuy tokenId st level)\<lparr>retryCount := retryCount st + 1\<rparr>)"
proof -
  have "fillStep cl isBuy tokenId st =
     Inl (Inl (ClientError e), (afterSubmit isBuy tokenId st level)\<lparr>retryCount := retryCount st + 1\<rparr>)"
    using b s x by (simp add: fillStep_level fillMaxRetries_def)
  from fillLoop_step_exit [OF t this] show ?thesis .
qed

lemma postOrder_loop:
  "postOrderChecks input = Inr (isBuy, tokenId, st) \<Longrightarrow>
   postOrder input = fillLoop (client input) isBuy tokenId st"
  by (simp add: postOrder_def)

lemma fillLoop_after:
  "fillAfter cl isBuy tokenId n st0 = Some st \<Longrightarrow>
   fillLoop cl isBuy tokenId st0 = fillLoop cl isBuy tokenId st"
proof (induction n arbitrary: st0)
  case 0
  then show ?case by simp
next
  case (Suc n)
  from Suc.prems have t: "fillTest st0"
    by (simp split: if_splits)
  from Suc.prems t obtain st1 where s: "fillStep cl isBuy tokenId st0 = Inr st1"
    and r: "fillAfter cl isBuy tokenId n st1 = Some st"
    by (cases "fillStep cl isBuy tokenId st0") simp_all
  from fillLoop_step_continue [OF t s] Suc.IH [OF r] show ?case by simp
qed

lemma postOrder_after:
  assumes "postOrderChecks input = Inr (isBuy, tokenId, st0)"
    and "fillAfter (client input) isBuy tokenId n st0 = Some st"
  shows "postOrder input = fillLoop (client input) isBuy tokenId st"
  using postOrder_loop [OF assms(1)] fillLoop_after [OF assms(2)] by simp

lemma fillLoop_fetch_error:
  "fillTest st \<Longrightarrow> getOrderBook cl (bookCalls st) tokenId = Inl e \<Longrightarrow>
   fillLoop cl isBuy tokenId st = Some (Inl (ClientError e), st\<lparr>bookCalls := bookCalls st + 1\<rparr>)"
  using fillStep_fetch_error [of cl st tokenId e isBuy] by (simp add: fillLoop_step_exit)

lemma fillLoop_empty:
  "fillTest st \<Longrightarrow> getOrderBook cl (bookCalls st) tokenId = Inr book \<Longrightarrow>
   (if isBuy then asks book else bids book) = [] \<Longrightarrow>
   fillLoop cl isBuy tokenId st = Some (Inr (), st\<lparr>bookCalls := bookCalls st + 1\<rparr>)"
  using fillStep_empty [of cl st tokenId book isBuy] by (simp add: fillLoop_step_exit)

text \<open>
  C9, as amended. Let \<^verbatim>\<open>postOrder\<close> have passed its checks and made \<open>n\<close> passes of the fill
  loop, and let the loop test hold of the state \<open>st\<close> it is in, so that notional above 0.01
  remains. If the next fetch of the book finds the side empty, \<^verbatim>\<open>postOrder\<close> returns
  normally (with \<open>()\<close>, which tells the caller nothing). If the next submission is rejected
  and the attempt counter thereby reaches 3, \<^verbatim>\<open>postOrder\<close> returns normally as well, with
  the remaining notional as it was. If the next submission throws and the counter thereby
  reaches 3, \<^verbatim>\<open>postOrder\<close> throws that error, and if the next fetch of the book throws,
  \<^verbatim>\<open>postOrder\<close> throws that error. Once the checks are passed, \<^verbatim>\<open>postOrder\<close> throws in no
  other case.
\<close>

theorem partial_fill_returns_normally:
  assumes "postOrderChecks input = Inr (isBuy, tokenId, st0)"
    and "fillAfter (client input) isBuy tokenId n st0 = Some st"
    and "fillTest st"
  shows "js_gt (remaining st) (Num 0.01)
   \<and> (getOrderBook (client input) (bookCalls st) tokenId = Inr book
        \<and> (if isBuy then asks book else bids book) = [] \<longrightarrow>
        postOrder input = Some (Inr (), st\<lparr>bookCalls := bookCalls st + 1\<rparr>))
   \<and> (bestLevel (client input) isBuy tokenId st = Some level
        \<and> submitOrder (client input) (length (submitted st)) (orderFor isBuy tokenId st level)
            = Inr False
        \<and> 3 \<le> retryCount st + 1 \<longrightarrow>
        postOrder input =
          Some (Inr (), (afterSubmit isBuy tokenId st level)\<lparr>retryCount := retryCount st + 1\<rparr>)
        \<and> remaining ((afterSubmit isBuy tokenId st level)\<lparr>retryCount := retryCount st + 1\<rparr>)
            = remaining st)
   \<and> (bestLevel (client input) isBuy tokenId st = Some level
        \<and> submitOrder (client input) (length (submitted st)) (orderFor isBuy tokenId st level)
            = Inl e
        \<and> 3 \<le> retryCount st + 1 \<longrightarrow>
        postOrder input =
          Some (Inl (ClientError e),
                (afterSubmit isBuy tokenId st level)\<lparr>retryCount := retryCount st + 1\<rparr>))
   \<and> (getOrderBook (client input) (bookCalls st) tokenId = Inl e \<longrightarrow>
        postOrder input = Some (Inl (ClientError e), st\<lparr>bookCalls := bookCalls st + 1\<rparr>))
   \<and> (postOrder input = Some (Inl err, st') \<longrightarrow> raisedBy (client input) tokenId err st')"
proof -
  note p = postOrder_after [OF assms(1) assms(2)]
  note t = assms(3)
  have r: "js_gt (remaining st) (Num 0.01)" using t by (simp add: fillTest_def)
  have empty: "postOrder input = Some (Inr (), st\<lparr>bookCalls := bookCalls st + 1\<rparr>)"
    if "getOrderBook (client input) (bookCalls st) tokenId = Inr book
        \<and> (if isBuy then asks book else bids book) = []"
    using that t p by (simp add: fillLoop_empty)
  have rejected: "postOrder input =
          Some (Inr (), (afterSubmit isBuy tokenId st level)\<lparr>retryCount := retryCount st + 1\<rparr>)
        \<and> remaining ((afterSubmit isBuy tokenId st level)\<lparr>retryCount := retryCount st + 1\<rparr>)
            = remaining st"
    if "bestLevel (client input) isBuy tokenId st = Some level
        \<and> submitOrder (client input) (length (submitted st)) (orderFor isBuy tokenId st level)
            = Inr False
        \<and> 3 \<le> retryCount st + 1"
    using that t p by (simp add: fillLoop_rejected_out afterSubmit_def)
  have threw: "postOrder input =
          Some (Inl (ClientError e),
                (afterSubmit isBuy tokenId st level)\<lparr>retryCount := retryCount st + 1\<rparr>)"
    if "bestLevel (client input) isBuy tokenId st = Some level
        \<and> submitOrder (client input) (length (submitted st)) (orderFor isBuy tokenId st level)
            = Inl e
        \<and> 3 \<le> retryCount st + 1"
    using that t p by (simp add: fillLoop_threw_out)
  have fetch: "postOrder input = Some (Inl (ClientError e), st\<lparr>bookCalls := bookCalls st + 1\<rparr>)"
    if "getOrderBook (client input) (bookCalls st) tokenId = Inl e"
    using that t p by (simp add: fillLoop_fetch_error)
  have only: "raisedBy (client input) tokenId err st'"
    if "postOrder input = Some (Inl err, st')"
  proof -
    from that postOrder_loop [OF assms(1)]
    have "fillLoop (client input) isBuy tokenId st0 = Some (Inl err, st')" by simp
    from fillLoop_result [OF this] show ?thesis by simp
  qed
  show ?thesis using r empty rejected threw fetch only by blast
qed

text \<open>
  C9 as stated fails: when three submissions in a row throw, the attempt budget is
  exhausted with all of the 10 USD remaining, and \<^verbatim>\<open>postOrder\<close> raises the last error.
\<close>

theorem exhausted_budget_raises:
  "postOrder (buyInput throwingClient None) =
     Some (Inl (ClientError (Failure ''network'')),
           \<lparr>remaining = Num 10, retryCount = 3, bookCalls = 4,
            submitted = [halfOrder, halfOrder, halfOrder], warnings = []\<rparr>)"
  by (simp add: throwingClient_def halfOrder_def order_eval fillLoop.simps)

theorem partial_fill_returns_normally_witness:
  "postOrderChecks (buyInput emptyingClient None) = Inr (True, Some ''token-yes'', startState)
   \<and> fillAfter (client (buyInput emptyingClient None)) True (Some ''token-yes'') (Suc 0) startState
       = Some halfFilled
   \<and> fillTest halfFilled
   \<and> js_gt (remaining halfFilled) (Num 0.01)
   \<and> getOrderBook (client (buyInput emptyingClient None)) (bookCalls halfFilled)
        (Some ''token-yes'') = Inr \<lparr>asks = [], bids = []\<rparr>
   \<and> postOrder (buyInput emptyingClient None) = Some (Inr (), halfFilled\<lparr>bookCalls := 3\<rparr>)
   \<and> postOrderChecks (buyInput rejectingClient None) = Inr (True, Some ''token-yes'', startState)
   \<and> fillAfter (client (buyInput rejectingClient None)) True (Some ''token-yes'') (Suc (Suc 0))
        startState = Some twoFailed
   \<and> fillTest twoFailed
   \<and> bestLevel (client (buyInput rejectingClient None)) True (Some ''token-yes'') twoFailed
       = Some halfLevel
   \<and> submitOrder (client (buyInput rejectingClient None)) (length (submitted twoFailed))
        (orderFor True (Some ''token-yes'') twoFailed halfLevel) = Inr False
   \<and> postOrder (buyInput rejectingClient None)
       = Some (Inr (), \<lparr>remaining = Num 10, retryCount = 3, bookCalls = 4,
                        submitted = [halfOrder, halfOrder, halfOrder], warnings = []\<rparr>)
   \<and> postOrderChecks (buyInput throwingClient None) = Inr (True, Some ''token-yes'', startState)
   \<and> fillAfter (client (buyInput throwingClient None)) True (Some ''token-yes'') (Suc (Suc 0))
        startState = Some twoFailed
   \<and> submitOrder (client (buyInput throwingClient None)) (length (submitted twoFailed))
        (orderFor True (Some ''token-yes'') twoFailed halfLevel) = Inl (Failure ''network'')
   \<and> fst (the (postOrder (buyInput throwingClient None)))
       = Inl (ClientError (Failure ''network''))
   \<and> raisedBy throwingClient (Some ''token-yes'') (ClientError (Failure ''network''))
        \<lparr>remaining = Num 10, retryCount = 3, bookCalls = 4,
         submitted = [halfOrder, halfOrder, halfOrder], warnings = []\<rparr>"
proof -
  let ?tok = "Some ''token-yes''"
  let ?out = "\<lparr>remaining = Num 10, retryCount = 3, bookCalls = 4,
                 submitted = [halfOrder, halfOrder, halfOrder], warnings = []\<rparr>"
  let ?e = "buyInput emptyingClient None"
  let ?r = "buyInput rejectingClient None"
  let ?t = "buyInput throwingClient None"
  note step_eval = fillStep_def submitLevel_def fillTest_def fillMaxRetries_def js_gt_def
    js_min_def js_sub_def Let_def
  have ce: "client ?e = emptyingClient" and cr: "client ?r = rejectingClient"
    and ct: "client ?t = throwingClient" by (simp_all add: buyInput_def)
  have k1: "postOrderChecks ?e = Inr (True, ?tok, startState)"
    by (simp add: emptyingClient_def fiveLevel_def startState_def order_eval)
  have a1: "fillAfter (client ?e) True ?tok (Suc 0) startState = Some halfFilled"
    unfolding ce
    by (simp add: emptyingClient_def fiveLevel_def fiveOrder_def startState_def halfFilled_def
        step_eval)
  have t1: "fillTest halfFilled" by (simp add: halfFilled_def fill_eval)
  have e1: "getOrderBook (client ?e) (bookCalls halfFilled) ?tok = Inr \<lparr>asks = [], bids = []\<rparr>"
    unfolding ce by (simp add: emptyingClient_def halfFilled_def)
  note E = partial_fill_returns_normally
    [OF k1 a1 t1, of "\<lparr>asks = [], bids = []\<rparr>" halfLevel "Failure ''network''"
       "ClientError (Failure ''network'')" ?out]
  from E have g1: "js_gt (remaining halfFilled) (Num 0.01)" by (rule conjunct1)
  from E e1 have "postOrder ?e = Some (Inr (), halfFilled\<lparr>bookCalls := bookCalls halfFilled + 1\<rparr>)"
    by simp
  then have c1: "postOrder ?e = Some (Inr (), halfFilled\<lparr>bookCalls := 3\<rparr>)"
    by (simp add: halfFilled_def)
  have k2: "postOrderChecks ?r = Inr (True, ?tok, startState)"
    by (simp add: rejectingClient_def startState_def order_eval)
  have a2: "fillAfter (client ?r) True ?tok (Suc (Suc 0)) startState = Some twoFailed"
    unfolding cr
    by (simp add: rejectingClient_def constClient_def halfOrder_def startState_def twoFailed_def
        step_eval)
  have t2: "fillTest twoFailed" by (simp add: twoFailed_def fill_eval)
  have b2: "bestLevel (client ?r) True ?tok twoFailed = Some halfLevel"
    unfolding cr by (simp add: rejectingClient_def fill_eval)
  have s2: "submitOrder (client ?r) (length (submitted twoFailed))
        (orderFor True ?tok twoFailed halfLevel) = Inr False"
    unfolding cr by (simp add: rejectingClient_def fill_eval)
  have x2: "3 \<le> retryCount twoFailed + 1" by (simp add: twoFailed_def)
  have o2: "(afterSubmit True ?tok twoFailed halfLevel)\<lparr>retryCount := retryCount twoFailed + 1\<rparr> = ?out"
    by (simp add: twoFailed_def fill_eval halfOrder_def js_mul.simps)
  note R = partial_fill_returns_normally
    [OF k2 a2 t2, of "\<lparr>asks = [], bids = []\<rparr>" halfLevel "Failure ''network''"
       "ClientError (Failure ''network'')" ?out]
  from R b2 s2 x2 have c2: "postOrder ?r = Some (Inr (), ?out)"
    unfolding o2 by blast
  have k3: "postOrderChecks ?t = Inr (True, ?tok, startState)"
    by (simp add: throwingClient_def startState_def order_eval)
  have a3: "fillAfter (client ?t) True ?tok (Suc (Suc 0)) startState = Some twoFailed"
    unfolding ct
    by (simp add: throwingClient_def constClient_def halfOrder_def startState_def twoFailed_def
        step_eval)
  have b3: "bestLevel (client ?t) True ?tok twoFailed = Some halfLevel"
    unfolding ct by (simp add: throwingClient_def fill_eval)
  have s3: "submitOrder (client ?t) (length (submitted twoFailed))
        (orderFor True ?tok twoFailed halfLevel) = Inl (Failure ''network'')"
    unfolding ct by (simp add: throwingClient_def fill_eval)
  note T = partial_fill_returns_normally
    [OF k3 a3 t2, of "\<lparr>asks = [], bids = []\<rparr>" halfLevel "Failure ''network''"
       "ClientError (Failure ''network'')" ?out]
  from T b3 s3 x2 have p3: "postOrder ?t = Some (Inl (ClientError (Failure ''network'')), ?out)"
    unfolding o2 by blast
  then have c3: "fst (the (postOrder ?t)) = Inl (ClientError (Failure ''network''))" by simp
  from T p3 have "raisedBy (client ?t) ?tok (ClientError (Failure ''network'')) ?out" by blast
  then have c4: "raisedBy throwingClient ?tok (ClientError (Failure ''network'')) ?out"
    unfolding ct .
  show ?thesis by (intro conjI k1 a1 t1 g1 e1 c1 k2 a2 t2 b2 s2 c2 k3 a3 s3 c3 c4)
qed





section \<open>Properties of the circuit breaker\<close>

lemma execute_failing_closed:
  assumes "state cb = CLOSED" and "failing operation"
  shows "\<exists>err w'. operation cb w = (Rejected err, w') \<and>
     execute clock cb operation w = (Inl (OperationError err), onFailure (clock w') cb, w')"
proof -
  obtain out w' where o: "operation cb w = (out, w')" by (cases "operation cb w")
  from assms(2) obtain err where "fst (operation cb w) = Rejected err"
    unfolding failing_def by blast
  with o have "out = Rejected err" by simp
  with o assms(1) show ?thesis by (simp add: execute_def)
qed

lemma onFailure_closed:
  "state cb = CLOSED \<Longrightarrow>
   onFailure now cb =
     (if failureCount cb + 1 \<ge> failureThreshold (options cb)
      then cb\<lparr>failureCount := failureCount cb + 1, state := OPEN,
              nextAttempt := now + timeout (options cb)\<rparr>
      else cb\<lparr>failureCount := failureCount cb + 1\<rparr>)"
  by (simp add: onFailure_def Let_def)

lemma closed_failures:
  "state cb = CLOSED \<Longrightarrow> list_all failing ops \<Longrightarrow>
   failureCount cb < failureThreshold (options cb) \<Longrightarrow>
   failureCount cb + length ops \<le> failureThreshold (options cb) \<Longrightarrow>
   failureCount (fst (executeAll clock cb ops w)) = failureCount cb + length ops
   \<and> state (fst (executeAll clock cb ops w))
       = (if failureCount cb + length ops < failureThreshold (options cb) then CLOSED else OPEN)"
proof (induction ops arbitrary: cb w)
  case Nil
  then show ?case by simp
next
  case (Cons operation ops)
  from Cons.prems have f: "failing operation" and fs: "list_all failing ops" by simp_all
  from execute_failing_closed [OF Cons.prems(1) f, of w clock]
  obtain err w' where ex: "execute clock cb operation w
      = (Inl (OperationError err), onFailure (clock w') cb, w')" by blast
  let ?cb' = "onFailure (clock w') cb"
  have run: "executeAll clock cb (operation # ops) w = executeAll clock ?cb' ops w'"
    using ex by simp
  show ?case
  proof (cases "failureCount cb + 1 \<ge> failureThreshold (options cb)")
    case True
    with Cons.prems(4) have "length (operation # ops) \<le> 1" by linarith
    then have e: "ops = []" by simp
    with True Cons.prems(1) run show ?thesis
      by (simp add: onFailure_closed)
  next
    case False
    then have cb': "state ?cb' = CLOSED" "failureCount ?cb' = failureCount cb + 1"
      "options ?cb' = options cb"
      using Cons.prems(1) by (simp_all add: onFailure_closed)
    have lt: "failureCount ?cb' < failureThreshold (options ?cb')"
      using False cb' by simp
    have le: "failureCount ?cb' + length ops \<le> failureThreshold (options ?cb')"
      using Cons.prems(4) cb' by simp
    from Cons.IH [OF cb'(1) fs lt le, of w'] cb'
    show ?thesis unfolding run by simp
  qed
qed

text \<open>
  C5. From the closed state with the failure counter at \<open>0\<close> and a threshold of at least
  one, \<open>k\<close> failed calls of \<^verbatim>\<open>execute\<close> in a row leave the breaker closed while \<open>k\<close> is
  below \<^verbatim>\<open>failureThreshold\<close> and open it at the threshold; a call that succeeds in the
  closed state sets the failure counter to \<open>0\<close>. In the open state, before \<^verbatim>\<open>nextAttempt\<close>,
  \<^verbatim>\<open>execute\<close> fails with the circuit-open error and leaves breaker and world as they are: the
  operation is not called. From \<^verbatim>\<open>nextAttempt\<close> on, the operation is called with the breaker
  already half open (and the success counter at \<open>0\<close>), and the call is settled from there.
\<close>

theorem breaker_opens_rejects_and_recovers:
  "(state cb = CLOSED \<and> failureCount cb = 0 \<and> 0 < failureThreshold (options cb)
      \<and> list_all failing ops \<and> length ops \<le> failureThreshold (options cb) \<longrightarrow>
      failureCount (fst (executeAll clock cb ops w)) = length ops
      \<and> state (fst (executeAll clock cb ops w))
          = (if length ops < failureThreshold (options cb) then CLOSED else OPEN))
   \<and> (state cb = CLOSED \<and> operation cb w = (Resolved r, w') \<longrightarrow>
        execute clock cb operation w = (Inr r, cb\<lparr>failureCount := 0\<rparr>, w'))
   \<and> (state cb = OPEN \<and> clock w < nextAttempt cb \<longrightarrow>
        execute clock cb operation w = (Inl CircuitOpen, cb, w))
   \<and> (state cb = OPEN \<and> nextAttempt cb \<le> clock w \<longrightarrow>
        execute clock cb operation w =
          (let cb1 = cb\<lparr>state := HALF_OPEN, successCount := 0\<rparr> in
           case operation cb1 w of
             (Resolved x, w1) \<Rightarrow> (Inr x, onSuccess cb1, w1)
           | (Rejected err, w1) \<Rightarrow> (Inl (OperationError err), onFailure (clock w1) cb1, w1)))"
proof (intro conjI impI)
  assume a: "state cb = CLOSED \<and> failureCount cb = 0 \<and> 0 < failureThreshold (options cb)
      \<and> list_all failing ops \<and> length ops \<le> failureThreshold (options cb)"
  then have "state cb = CLOSED" "list_all failing ops"
    "failureCount cb < failureThreshold (options cb)"
    "failureCount cb + length ops \<le> failureThreshold (options cb)" by simp_all
  from closed_failures [OF this, of clock w] a
  show "failureCount (fst (executeAll clock cb ops w)) = length ops"
    and "state (fst (executeAll clock cb ops w))
          = (if length ops < failureThreshold (options cb) then CLOSED else OPEN)"
    by simp_all
next
  assume "state cb = CLOSED \<and> operation cb w = (Resolved r, w')"
  then show "execute clock cb operation w = (Inr r, cb\<lparr>failureCount := 0\<rparr>, w')"
    by (simp add: execute_def onSuccess_def)
next
  assume "state cb = OPEN \<and> clock w < nextAttempt cb"
  then show "execute clock cb operation w = (Inl CircuitOpen, cb, w)"
    by (simp add: execute_def)
next
  assume "state cb = OPEN \<and> nextAttempt cb \<le> clock w"
  then show "execute clock cb operation w =
          (let cb1 = cb\<lparr>state := HALF_OPEN, successCount := 0\<rparr> in
           case operation cb1 w of
             (Resolved x, w1) \<Rightarrow> (Inr x, onSuccess cb1, w1)
           | (Rejected err, w1) \<Rightarrow> (Inl (OperationError err), onFailure (clock w1) cb1, w1))"
    by (simp add: execute_def Let_def)
qed

lemmas breaker_eval = execute_def onFailure_def onSuccess_def newCircuitBreaker_def
  testOptions_def failOp_def okOp_def probeOp_def wallClock_def Let_def

lemma failing_failOp: "failing failOp"
  by (simp add: failing_def failOp_def)

theorem breaker_opens_rejects_and_recovers_witness:
  "state (newCircuitBreaker testOptions 0) = CLOSED
   \<and> failureCount (newCircuitBreaker testOptions 0) = 0
   \<and> 0 < failureThreshold (options (newCircuitBreaker testOptions 0))
   \<and> list_all failing [failOp, failOp, failOp]
   \<and> length [failOp, failOp, failOp] \<le> failureThreshold (options (newCircuitBreaker testOptions 0))
   \<and> state (fst (executeAll wallClock (newCircuitBreaker testOptions 0) [failOp, failOp] 0)) = CLOSED
   \<and> executeAll wallClock (newCircuitBreaker testOptions 0) [failOp, failOp, failOp] 0
       = (openedBreaker, 3)
   \<and> failureCount (fst (executeAll wallClock (newCircuitBreaker testOptions 0)
        [failOp, failOp] 0)) = 2
   \<and> okOp (fst (executeAll wallClock (newCircuitBreaker testOptions 0) [failOp, failOp] 0)) 2
       = (Resolved (), 3)
   \<and> failureCount (fst (snd (execute wallClock
        (fst (executeAll wallClock (newCircuitBreaker testOptions 0) [failOp, failOp] 0))
        okOp 2))) = 0
   \<and> state openedBreaker = OPEN \<and> wallClock 60002 < nextAttempt openedBreaker
   \<and> execute wallClock openedBreaker probeOp 60002 = (Inl CircuitOpen, openedBreaker, 60002)
   \<and> nextAttempt openedBreaker \<le> wallClock 60003
   \<and> execute wallClock openedBreaker probeOp 60003
       = (Inr (), \<lparr>state = HALF_OPEN, failureCount = 0, successCount = 1, nextAttempt = 60003,
                   options = testOptions\<rparr>, 2)"
proof -
  let ?cb = "newCircuitBreaker testOptions 0"
  let ?two = "fst (executeAll wallClock ?cb [failOp, failOp] 0)"
  have h: "state ?cb = CLOSED" "failureCount ?cb = 0" "0 < failureThreshold (options ?cb)"
    "list_all failing [failOp, failOp, failOp]"
    "length [failOp, failOp, failOp] \<le> failureThreshold (options ?cb)"
    by (simp_all add: newCircuitBreaker_def testOptions_def failing_failOp)
  have h2: "list_all failing [failOp, failOp]"
    "length [failOp, failOp] \<le> failureThreshold (options ?cb)"
    by (simp_all add: newCircuitBreaker_def testOptions_def failing_failOp)
  note T1 = breaker_opens_rejects_and_recovers
    [of ?cb "[failOp, failOp]" wallClock 0 failOp "()" 0, THEN conjunct1]
  from T1 h(1-3) h2
  have "failureCount ?two = length [failOp, failOp]
      \<and> state ?two = (if length [failOp, failOp] < failureThreshold (options ?cb)
                      then CLOSED else OPEN)"
    by blast
  then have c1: "state ?two = CLOSED" and c1': "failureCount ?two = 2"
    by (simp_all add: newCircuitBreaker_def testOptions_def)
  have c2: "executeAll wallClock ?cb [failOp, failOp, failOp] 0 = (openedBreaker, 3)"
    by (simp add: breaker_eval openedBreaker_def)
  have k: "okOp ?two 2 = (Resolved (), 3)" by (simp add: okOp_def)
  note T2 = breaker_opens_rejects_and_recovers
    [of ?two "[]" wallClock 2 okOp "()" 3, THEN conjunct2, THEN conjunct1]
  from T2 c1 k
  have "execute wallClock ?two okOp 2 = (Inr (), ?two\<lparr>failureCount := 0\<rparr>, 3)" by blast
  then have c3: "failureCount (fst (snd (execute wallClock ?two okOp 2))) = 0" by simp
  have o: "state openedBreaker = OPEN" "wallClock 60002 < nextAttempt openedBreaker"
    "nextAttempt openedBreaker \<le> wallClock 60003"
    by (simp_all add: openedBreaker_def wallClock_def)
  note T3 = breaker_opens_rejects_and_recovers
    [of openedBreaker "[]" wallClock 60002 probeOp "()" 0, THEN conjunct2, THEN conjunct2,
     THEN conjunct1]
  from T3 o(1,2)
  have c4: "execute wallClock openedBreaker probeOp 60002 = (Inl CircuitOpen, openedBreaker, 60002)"
    by blast
  note T4 = breaker_opens_rejects_and_recovers
    [of openedBreaker "[]" wallClock 60003 probeOp "()" 0, THEN conjunct2, THEN conjunct2,
     THEN conjunct2]
  from T4 o(1,3)
  have "execute wallClock openedBreaker probeOp 60003 =
          (let cb1 = openedBreaker\<lparr>state := HALF_OPEN, successCount := 0\<rparr> in
           case probeOp cb1 60003 of
             (Resolved x, w1) \<Rightarrow> (Inr x, onSuccess cb1, w1)
           | (Rejected err, w1) \<Rightarrow> (Inl (OperationError err), onFailure (wallClock w1) cb1, w1))"
    by blast
  then have c5: "execute wallClock openedBreaker probeOp 60003
       = (Inr (), \<lparr>state = HALF_OPEN, failureCount = 0, successCount = 1, nextAttempt = 60003,
                   options = testOptions\<rparr>, 2)"
    by (simp add: openedBreaker_def probeOp_def onSuccess_def testOptions_def Let_def)
  show ?thesis by (intro conjI h c1 c2 c1' k c3 o c4 c5)
qed

section \<open>Properties of the sizing engine\<close>

lemma sizing_eq:
  "computeProportionalSizing input =
     \<lparr>targetUsdSize = (if js_lt (sizingTarget input) (Num 1) \<or> \<not> js_isFinite (sizingTarget input)
                       then Num 1 else sizingTarget input),
      ratio = sizingRatio input\<rparr>"
  by (simp add: computeProportionalSizing_def sizingTarget_def sizingRatio_def MIN_TRADE_USD_def
      Let_def)

lemma floor_finite: "\<not> js_lt t (Num 1) \<Longrightarrow> js_isFinite t \<Longrightarrow> js_ge t (Num 1)"
  by (cases t) (auto simp: js_ge_def)

text \<open>
  C3. \<^verbatim>\<open>computeProportionalSizing\<close> is a function of its input alone, with a result for every
  input. It reports the ratio \<open>B_f / (B_t + S_t)\<close> of the floored balances (\<open>0\<close> for a zero
  denominator); its target is \<open>1\<close> whenever \<open>S_t \<times> ratio \<times> M\<close> is below \<open>1\<close> or not finite,
  and that product otherwise; so for every input, negative, zero, infinite or \<^verbatim>\<open>NaN\<close>, the
  target is at least \<open>1\<close> and finite. For balances 1000 and 1000, a trade of 100 and
  multiplier 1 the ratio is \<open>10/11\<close>, about 0.909, and the target \<open>1000/11\<close>, about 90.9.
\<close>

theorem sizing_never_below_minimum:
  "ratio (computeProportionalSizing input) = sizingRatio input
   \<and> (js_lt (sizingTarget input) (Num 1) \<or> \<not> js_isFinite (sizingTarget input) \<longrightarrow>
        targetUsdSize (computeProportionalSizing input) = Num 1)
   \<and> (\<not> js_lt (sizingTarget input) (Num 1) \<and> js_isFinite (sizingTarget input) \<longrightarrow>
        targetUsdSize (computeProportionalSizing input) = sizingTarget input)
   \<and> js_ge (targetUsdSize (computeProportionalSizing input)) (Num 1)
   \<and> js_isFinite (targetUsdSize (computeProportionalSizing input))
   \<and> computeProportionalSizing
        \<lparr>yourUsdBalance = Num 1000, traderUsdBalance = Num 1000, traderTradeUsd = Num 100,
         multiplier = Num 1\<rparr>
       = \<lparr>targetUsdSize = Num (1000 / 11), ratio = Num (10 / 11)\<rparr>
   \<and> \<bar>10 / 11 - 0.909\<bar> < (0.0005 :: real) \<and> \<bar>1000 / 11 - 90.9\<bar> < (0.05 :: real)"
proof -
  have a: "js_ge (targetUsdSize (computeProportionalSizing input)) (Num 1)"
    using floor_finite [of "sizingTarget input"] by (auto simp: sizing_eq js_ge_def)
  have b: "js_isFinite (targetUsdSize (computeProportionalSizing input))"
    by (simp add: sizing_eq)
  have c: "computeProportionalSizing
        \<lparr>yourUsdBalance = Num 1000, traderUsdBalance = Num 1000, traderTradeUsd = Num 100,
         multiplier = Num 1\<rparr>
       = \<lparr>targetUsdSize = Num (1000 / 11), ratio = Num (10 / 11)\<rparr>"
    by (simp add: computeProportionalSizing_def MIN_TRADE_USD_def js_max_def Let_def)
  have d: "\<bar>10 / 11 - 0.909\<bar> < (0.0005 :: real)" "\<bar>1000 / 11 - 90.9\<bar> < (0.05 :: real)"
    by simp_all
  show ?thesis using a b c d by (simp add: sizing_eq)
qed

theorem sizing_never_below_minimum_witness:
  "js_lt (sizingTarget \<lparr>yourUsdBalance = Num 0, traderUsdBalance = Num 0,
                        traderTradeUsd = Num 100, multiplier = Num 1\<rparr>) (Num 1)
   \<and> computeProportionalSizing \<lparr>yourUsdBalance = Num 0, traderUsdBalance = Num 0,
                        traderTradeUsd = Num 100, multiplier = Num 1\<rparr>
       = \<lparr>targetUsdSize = Num 1, ratio = Num 0\<rparr>
   \<and> \<not> js_isFinite (sizingTarget \<lparr>yourUsdBalance = PInf, traderUsdBalance = Num 1000,
                        traderTradeUsd = NaN, multiplier = Num 1\<rparr>)
   \<and> targetUsdSize (computeProportionalSizing \<lparr>yourUsdBalance = PInf, traderUsdBalance = Num 1000,
                        traderTradeUsd = NaN, multiplier = Num 1\<rparr>) = Num 1
   \<and> \<not> js_lt (sizingTarget \<lparr>yourUsdBalance = Num 1000, traderUsdBalance = Num 0,
                        traderTradeUsd = Num 100, multiplier = Num 1\<rparr>) (Num 1)
   \<and> js_isFinite (sizingTarget \<lparr>yourUsdBalance = Num 1000, traderUsdBalance = Num 0,
                        traderTradeUsd = Num 100, multiplier = Num 1\<rparr>)
   \<and> targetUsdSize (computeProportionalSizing \<lparr>yourUsdBalance = Num 1000, traderUsdBalance = Num 0,
                        traderTradeUsd = Num 100, multiplier = Num 1\<rparr>) = Num 1000"
proof -
  let ?zero = "\<lparr>yourUsdBalance = Num 0, traderUsdBalance = Num 0,
                 traderTradeUsd = Num 100, multiplier = Num 1\<rparr>"
  let ?bad = "\<lparr>yourUsdBalance = PInf, traderUsdBalance = Num 1000,
                traderTradeUsd = NaN, multiplier = Num 1\<rparr>"
  let ?ten = "\<lparr>yourUsdBalance = Num 1000, traderUsdBalance = Num 0,
                traderTradeUsd = Num 100, multiplier = Num 1\<rparr>"
  have z: "sizingRatio ?zero = Num 0" "sizingTarget ?zero = Num 0"
    by (simp_all add: sizingTarget_def sizingRatio_def js_max_def)
  then have h1: "js_lt (sizingTarget ?zero) (Num 1)" by simp
  from sizing_never_below_minimum [of ?zero] h1 z
  have "ratio (computeProportionalSizing ?zero) = Num 0"
    "targetUsdSize (computeProportionalSizing ?zero) = Num 1" by simp_all
  then have c1: "computeProportionalSizing ?zero = \<lparr>targetUsdSize = Num 1, ratio = Num 0\<rparr>"
    by (cases "computeProportionalSizing ?zero") simp
  have h2: "\<not> js_isFinite (sizingTarget ?bad)"
    by (simp add: sizingTarget_def sizingRatio_def js_max_def)
  from sizing_never_below_minimum [of ?bad] h2
  have c2: "targetUsdSize (computeProportionalSizing ?bad) = Num 1" by blast
  have t: "sizingTarget ?ten = Num 1000"
    by (simp add: sizingTarget_def sizingRatio_def js_max_def)
  then have h3: "\<not> js_lt (sizingTarget ?ten) (Num 1)" "js_isFinite (sizingTarget ?ten)"
    by simp_all
  from sizing_never_below_minimum [of ?ten] h3 t
  have c3: "targetUsdSize (computeProportionalSizing ?ten) = Num 1000" by simp
  show ?thesis by (intro conjI h1 c1 h2 c2 h3 c3)
qed

end
